theory Spec2Isabelle
  imports Complex_Main "HOL-Library.Word" "HOL-Library.Sublist" "HOL-Library.Monad_Syntax"
begin

unbundle bit_operations_syntax

section \<open>Ride items (maxtime.hh)\<close>

text \<open>
  A \<open>RideItem\<close> holds a description, a cost in dollars (stored as \<open>int\<close>) and a time in
  minutes (a \<open>double\<close>). The time of an item is the real number that its double
  denotes (a finite double); the cost is the integer that its \<open>int\<close> denotes. What the
  machine does with them is written out below: \<open>int\<close> arithmetic wraps around at 32
  bits, \<open>double\<close> addition rounds and overflows to an infinity.
  A \<open>RideVector\<close> is a vector of shared pointers to items that are never mutated, so it
  is a list of items. Storage is not bounded: no allocation fails.
\<close>

record RideItem =
  description :: string
  cost :: int
  time :: real

type_synonym RideVector = "RideItem list"

subsection \<open>Machine arithmetic\<close>

text \<open>
  The result of an \<open>int\<close> operation: the mathematical result reduced to 32 bits, two's
  complement. (The C++ standard leaves signed overflow undefined; the compiled code
  wraps around.)
\<close>

definition wrap_int :: "int \<Rightarrow> int" where
  "wrap_int x = sint (word_of_int x :: 32 word)"

text \<open>\<open>(int)rides.size()\<close>: the size reduced to an \<open>int\<close>.\<close>

definition int_of_size :: "nat \<Rightarrow> int" where
  "int_of_size n = wrap_int (int n)"

text \<open>
  The values of the counter of \<open>for (int k = a; k <= b; k++)\<close>. For \<open>b = INT_MAX\<close>
  the test never fails and \<open>k++\<close> overflows: the loop does not end normally, which
  is \<open>None\<close>.
\<close>

definition int_range :: "int \<Rightarrow> int \<Rightarrow> int list option" where
  "int_range a b = (if a \<le> b \<and> b = 2 ^ 31 - 1 then None else Some [a..b])"

text \<open>
  A value of type \<open>double\<close> (IEEE 754 binary64): a real number with a significand of
  53 bits and an exponent between \<open>-1022\<close> and \<open>1023\<close>, one of the two infinities, or
  not a number. The two zeros are not told apart: no operation used here does.
\<close>

datatype double = Num real | PosInf | NegInf | NaN

fun bit_length :: "nat \<Rightarrow> nat" where
  "bit_length b = (if b = 0 then 0 else Suc (bit_length (b div 2)))"

declare bit_length.simps [simp del]

text \<open>The exponent \<open>e\<close> with \<open>2 ^ e \<le> |x| < 2 ^ (e + 1)\<close>, for \<open>x \<noteq> 0\<close>.\<close>

definition binary_exponent :: "real \<Rightarrow> int" where
  "binary_exponent x =
     (if 1 \<le> \<bar>x\<bar> then int (bit_length (nat \<lfloor>\<bar>x\<bar>\<rfloor>)) - 1
      else - int (bit_length (nat (\<lceil>1 / \<bar>x\<bar>\<rceil> - 1))))"

text \<open>Rounding to the nearest integer, a tie going to the even one.\<close>

definition round_half_even :: "real \<Rightarrow> int" where
  "round_half_even q =
     (let f = \<lfloor>q\<rfloor> in
      if q - of_int f < 1 / 2 then f
      else if 1 / 2 < q - of_int f then f + 1
      else if even f then f else f + 1)"

text \<open>
  The double nearest to a real number (round to nearest, ties to even): the number is
  rounded to a multiple of the unit in the last place of its binade (of the smallest
  binade for subnormal numbers); a result of magnitude \<open>2 ^ 1024\<close> is an infinity.
\<close>

definition round_double :: "real \<Rightarrow> double" where
  "round_double x =
     (if x = 0 then Num 0
      else let e = max (binary_exponent x) (- 1022);
               ulp = 2 powi (e - 52);
               y = of_int (round_half_even (x / ulp)) * ulp
           in if 2 ^ 1024 \<le> y then PosInf
              else if y \<le> - (2 ^ 1024) then NegInf
              else Num y)"

text \<open>The operations on doubles that the solvers use: \<open>+\<close>, \<open><\<close>, \<open>==\<close> and
  \<open>std::max\<close> (which returns its second argument when the first is less).\<close>

fun dadd :: "double \<Rightarrow> double \<Rightarrow> double" where
  "dadd (Num a) (Num b) = round_double (a + b)"
| "dadd NaN y = NaN"
| "dadd x NaN = NaN"
| "dadd PosInf NegInf = NaN"
| "dadd NegInf PosInf = NaN"
| "dadd PosInf y = PosInf"
| "dadd x PosInf = PosInf"
| "dadd NegInf y = NegInf"
| "dadd x NegInf = NegInf"

fun dless :: "double \<Rightarrow> double \<Rightarrow> bool" where
  "dless (Num a) (Num b) = (a < b)"
| "dless (Num a) PosInf = True"
| "dless NegInf (Num b) = True"
| "dless NegInf PosInf = True"
| "dless x y = False"

fun deq :: "double \<Rightarrow> double \<Rightarrow> bool" where
  "deq (Num a) (Num b) = (a = b)"
| "deq PosInf PosInf = True"
| "deq NegInf NegInf = True"
| "deq x y = False"

definition dmax :: "double \<Rightarrow> double \<Rightarrow> double" where
  "dmax a b = (if dless a b then b else a)"

subsection \<open>sum_ride_vector\<close>

text \<open>Both totals start at 0 and every ride adds its cost, in \<open>int\<close> arithmetic, and its
  time, in \<open>double\<close> arithmetic, in order.\<close>

definition sum_ride_vector :: "RideVector \<Rightarrow> int \<times> double" where
  "sum_ride_vector rides =
     foldl (\<lambda>(total_cost, total_time) ride.
              (wrap_int (total_cost + cost ride), dadd total_time (Num (time ride))))
       (0, Num 0) rides"

subsection \<open>filter_ride_vector\<close>

text \<open>
  The loop over \<open>source\<close>: an element whose time is at least \<open>min_time\<close>, at most
  \<open>max_time\<close> and positive is appended; after every element, appended or not, the loop
  leaves once the output holds \<open>total_size\<close> items or more.
\<close>

fun filter_loop :: "RideVector \<Rightarrow> real \<Rightarrow> real \<Rightarrow> int \<Rightarrow> RideVector \<Rightarrow> RideVector" where
  "filter_loop [] min_time max_time total_size filtered_rides = filtered_rides"
| "filter_loop (element # rest) min_time max_time total_size filtered_rides =
     (let filtered_rides' =
        (if time element \<ge> min_time \<and> time element \<le> max_time \<and> time element > 0
         then filtered_rides @ [element] else filtered_rides)
      in if int (length filtered_rides') \<ge> total_size then filtered_rides'
         else filter_loop rest min_time max_time total_size filtered_rides')"

definition filter_ride_vector :: "RideVector \<Rightarrow> real \<Rightarrow> real \<Rightarrow> int \<Rightarrow> RideVector" where
  "filter_ride_vector source min_time max_time total_size =
     filter_loop source min_time max_time total_size []"

text \<open>
  The filter as the specification words it: every item whose time lies in the closed
  range, in source order, cut at the maximum size.
\<close>

definition filter_ride_vector_spec :: "RideVector \<Rightarrow> real \<Rightarrow> real \<Rightarrow> int \<Rightarrow> RideVector" where
  "filter_ride_vector_spec source min_time max_time total_size =
     take (nat total_size) (filter (\<lambda>r. min_time \<le> time r \<and> time r \<le> max_time) source)"

subsection \<open>dynamic_max_time\<close>

text \<open>
  The cache is a vector of rows of doubles. \<open>cache[i][j]\<close> with an index outside the
  vector is undefined in C++; the model reads and writes through checked accessors and
  gives \<open>None\<close> there, so that every access of the source is either shown to be in
  range or makes the whole call \<open>None\<close>. A negative \<open>int\<close> index converts to a huge
  \<open>size_t\<close>, hence it is out of range.
\<close>

definition cache_at :: "double list list \<Rightarrow> int \<Rightarrow> int \<Rightarrow> double option" where
  "cache_at cache i j =
     (if 0 \<le> i \<and> i < int (length cache) \<and> 0 \<le> j \<and> j < int (length (cache ! nat i))
      then Some (cache ! nat i ! nat j) else None)"

definition cache_set :: "double list list \<Rightarrow> int \<Rightarrow> int \<Rightarrow> double \<Rightarrow> double list list option" where
  "cache_set cache i j v =
     (if 0 \<le> i \<and> i < int (length cache) \<and> 0 \<le> j \<and> j < int (length (cache ! nat i))
      then Some (cache[nat i := (cache ! nat i)[nat j := v]]) else None)"

text \<open>A \<open>for\<close> loop over the values \<open>xs\<close>, its body threading the state; it stops at the
  first undefined access.\<close>

fun for_each :: "'a list \<Rightarrow> ('a \<Rightarrow> 's \<Rightarrow> 's option) \<Rightarrow> 's \<Rightarrow> 's option" where
  "for_each [] body s = Some s"
| "for_each (x # xs) body s =
     (case body x s of None \<Rightarrow> None | Some s' \<Rightarrow> for_each xs body s')"

text \<open>The table starts with one row for every \<open>i\<close> from 0 to \<open>(int)rides.size()\<close>, each row
  holding one \<open>0.0\<close> for every \<open>j\<close> from 0 to \<open>total_cost + 1\<close>.\<close>

definition init_cache :: "RideVector \<Rightarrow> int \<Rightarrow> double list list option" where
  "init_cache rides total_cost =
     (case int_range 0 (int_of_size (length rides)) of
        None \<Rightarrow> None
      | Some rows \<Rightarrow>
          if rows = [] then Some []
          else (case int_range 0 (wrap_int (total_cost + 1)) of
                  None \<Rightarrow> None
                | Some columns \<Rightarrow> Some (map (\<lambda>i. map (\<lambda>j. Num 0) columns) rows)))"

text \<open>The body of the inner loop, for row \<open>i\<close> and column \<open>j\<close>.\<close>

definition dp_cell :: "RideVector \<Rightarrow> int \<Rightarrow> int \<Rightarrow> double list list \<Rightarrow> double list list option" where
  "dp_cell rides i j cache =
     (let item = rides ! nat (i - 1) in
      do {
        results \<leftarrow>
          (if wrap_int (j - cost item) \<ge> 0
           then do {
             a \<leftarrow> cache_at cache (i - 1) (wrap_int (j - cost item));
             b \<leftarrow> cache_at cache (i - 1) j;
             Some (dmax (dadd (Num (time item)) a) b)
           }
           else cache_at cache (i - 1) j);
        cache_set cache i j results
      })"

definition fill_cache :: "RideVector \<Rightarrow> int \<Rightarrow> double list list \<Rightarrow> double list list option" where
  "fill_cache rides total_cost cache =
     do {
       rows \<leftarrow> int_range 1 (int_of_size (length rides));
       for_each rows
         (\<lambda>i cache. do {
            columns \<leftarrow> int_range 1 total_cost;
            for_each columns (\<lambda>j. dp_cell rides i j) cache
          }) cache
     }"

text \<open>
  The walk back from row \<open>(int)rides.size()\<close> to row 1; the first argument is the loop
  variable \<open>i\<close>. \<open>tempcost\<close> is a \<open>double\<close> in the source. It starts as \<open>total_cost\<close>, and
  whenever a cost is subtracted from it the access \<open>cache[i][tempcost]\<close> before has
  succeeded, so it was a whole number between 0 and \<open>2 ^ 31\<close>: the difference is a
  whole number far below \<open>2 ^ 53\<close> in magnitude, and the double subtraction is exact.
  It is an integer here.
\<close>

fun backtrack :: "nat \<Rightarrow> RideVector \<Rightarrow> double list list \<Rightarrow> int \<Rightarrow> RideVector \<Rightarrow> RideVector option" where
  "backtrack 0 rides cache tempcost result = Some result"
| "backtrack (Suc i') rides cache tempcost result =
     do {
       a \<leftarrow> cache_at cache (int (Suc i')) tempcost;
       b \<leftarrow> cache_at cache (int i') tempcost;
       if deq a b then backtrack i' rides cache tempcost result
       else backtrack i' rides cache (tempcost - cost (rides ! i')) (result @ [rides ! i'])
     }"

definition dynamic_max_time :: "RideVector \<Rightarrow> int \<Rightarrow> RideVector option" where
  "dynamic_max_time rides total_cost =
     do {
       cache \<leftarrow> init_cache rides total_cost;
       cache \<leftarrow> fill_cache rides total_cost cache;
       backtrack (nat (int_of_size (length rides))) rides cache total_cost []
     }"

subsection \<open>exhaustive_max_time\<close>

text \<open>
  The loop condition \<open>bits <= pow(2, n)\<close> compares a 64-bit \<open>size_t\<close> with a
  \<open>double\<close>: \<open>bits\<close> is converted to the nearest double (53 significant bits, ties to
  even), which is again a whole number; \<open>pow(2, n)\<close> is exactly \<open>2 ^ n\<close> for
  \<open>n \<le> 64\<close>.
\<close>

definition size_t_to_double :: "nat \<Rightarrow> nat" where
  "size_t_to_double b =
     (if b < 2 ^ 53 then b
      else let e = bit_length b - 53; q = b div 2 ^ e; r = b mod 2 ^ e; half = 2 ^ (e - 1)
           in if r < half \<or> (r = half \<and> even q) then q * 2 ^ e else (q + 1) * 2 ^ e)"

text \<open>The candidate of a bit pattern: the rides \<open>j < n\<close> with \<open>(bits >> j & 1) == 1\<close>.\<close>

definition candidate_of :: "RideVector \<Rightarrow> nat \<Rightarrow> 64 word \<Rightarrow> RideVector" where
  "candidate_of rides n bits =
     map (\<lambda>j. rides ! j) (filter (\<lambda>j. (drop_bit j bits) AND 1 = 1) [0..<n])"

text \<open>One iteration: the candidate replaces \<open>best\<close> when its cost is within the budget
  and \<open>best\<close> is empty or has less time. The \<open>int\<close> cost is converted to \<open>double\<close> for the
  comparison with the budget, exactly.\<close>

definition exhaustive_step :: "RideVector \<Rightarrow> nat \<Rightarrow> real \<Rightarrow> 64 word \<Rightarrow> RideVector \<Rightarrow> RideVector" where
  "exhaustive_step rides n total_cost bits best =
     (let candidate = candidate_of rides n bits;
          (total_cost_candidate, total_time_candidate) = sum_ride_vector candidate;
          (total_cost_main, total_time_main) = sum_ride_vector best
      in if real_of_int total_cost_candidate \<le> total_cost
         then (if best = [] \<or> dless total_time_main total_time_candidate
               then candidate else best)
         else best)"

text \<open>
  The loop may run forever (for \<open>n = 64\<close> every \<open>size_t\<close> passes the test and
  \<open>bits++\<close> wraps around), so it is a partial function: \<open>None\<close> is not returning.
  Beside \<open>best\<close> the state records the bit patterns examined so far, in order; the
  source has no such variable, it is kept to count the iterations.
\<close>

partial_function (option) exhaustive_loop ::
  "RideVector \<Rightarrow> nat \<Rightarrow> real \<Rightarrow> 64 word \<Rightarrow> RideVector \<times> 64 word list
     \<Rightarrow> (RideVector \<times> 64 word list) option" where
  "exhaustive_loop rides n total_cost bits st =
     (if size_t_to_double (unat bits) \<le> 2 ^ n
      then exhaustive_loop rides n total_cost (bits + 1)
             (exhaustive_step rides n total_cost bits (fst st), snd st @ [bits])
      else Some st)"

declare exhaustive_loop.simps [code]

text \<open>
  \<open>int n = rides.size()\<close>, capped at 64. A negative \<open>n\<close> (a size of \<open>2 ^ 31\<close> or more,
  reduced to an \<open>int\<close>) makes \<open>pow(2, n)\<close> a fraction: the loop then runs once, for
  \<open>bits = 0\<close>, whose candidate is empty, and \<open>best\<close> stays empty.
\<close>

definition exhaustive_run :: "RideVector \<Rightarrow> real \<Rightarrow> (RideVector \<times> 64 word list) option" where
  "exhaustive_run rides total_cost =
     (let n = int_of_size (length rides);
          n = (if n > 64 then 64 else n)
      in if n < 0 then Some ([], [0])
         else exhaustive_loop rides (nat n) total_cost 0 ([], []))"

definition exhaustive_max_time :: "RideVector \<Rightarrow> real \<Rightarrow> RideVector option" where
  "exhaustive_max_time rides total_cost = map_option fst (exhaustive_run rides total_cost)"

definition exhaustive_examined :: "RideVector \<Rightarrow> real \<Rightarrow> 64 word list option" where
  "exhaustive_examined rides total_cost = map_option snd (exhaustive_run rides total_cost)"


subsection \<open>load_ride_database\<close>

text \<open>
  The file is the list of its lines, as \<open>std::getline(f, line)\<close> yields them, or
  \<open>None\<close> when it cannot be opened. The load ends in one of five ways: the failure
  value \<open>nullptr\<close>, the loaded vector, an assertion of the \<open>RideItem\<close> constructor
  that fails, a conversion of a double to \<open>size_t\<close> that is undefined, or the read of
  a variable that was never written.
\<close>

datatype load_result =
  Failure | Loaded RideVector | Assertion_failed | Undefined_conversion | Uninitialised_read

text \<open>
  The fields of a line: \<open>std::getline(ss, field, '^')\<close> until it fails. Each call
  takes the characters up to the next \<open>^\<close> and removes the \<open>^\<close>; on an exhausted
  stream it fails, so a line that ends with \<open>^\<close> has no empty last field.
\<close>

function getline_fields :: "string \<Rightarrow> string list" where
  "getline_fields s =
     (if s = [] then []
      else takeWhile (\<lambda>c. c \<noteq> CHR ''^'') s
             # getline_fields (drop 1 (dropWhile (\<lambda>c. c \<noteq> CHR ''^'') s)))"
  by pat_completeness auto
termination
proof (relation "measure length")
  show "wf (measure length)" by simp
next
  fix s :: string
  assume ne: "s \<noteq> []"
  have le: "length (dropWhile (\<lambda>c. c \<noteq> CHR ''^'') s) \<le> length s"
    by (rule length_dropWhile_le)
  have "length (drop 1 (dropWhile (\<lambda>c. c \<noteq> CHR ''^'') s)) < length s"
  proof (cases "dropWhile (\<lambda>c. c \<noteq> CHR ''^'') s")
    case Nil
    then have "drop 1 (dropWhile (\<lambda>c. c \<noteq> CHR ''^'') s) = []"
      by (simp only: drop_Nil)
    then have "length (drop 1 (dropWhile (\<lambda>c. c \<noteq> CHR ''^'') s)) = 0"
      by (simp only: list.size)
    moreover from ne have "0 < length s" by simp
    ultimately show ?thesis by linarith
  next
    case (Cons a t)
    then have "length (drop 1 (dropWhile (\<lambda>c. c \<noteq> CHR ''^'') s)) = length t"
      by (simp only: One_nat_def drop_Suc_Cons drop_0)
    moreover from Cons le have "length t < length s" by simp
    ultimately show ?thesis by linarith
  qed
  then show "(drop 1 (dropWhile (\<lambda>c. c \<noteq> CHR ''^'') s), s) \<in> measure length"
    by simp
qed

declare getline_fields.simps [simp del]

text \<open>
  The lambda \<open>parse_dbl\<close>. The stream is tested before the extraction, when it has
  just been built and is good, and not after it, so the lambda returns \<open>true\<close> in
  every case. The extraction \<open>ss >> output\<close> first skips white space; on a field that
  holds nothing else it stops there and \<open>output\<close> is not written (\<open>None\<close>: the
  variable, declared without a value, stays as it was). Otherwise the conversion of
  the C++ library runs; it is a parameter \<open>extract\<close>: the number read from the field,
  or \<open>None\<close> when no number can be read, in which case 0 is stored in \<open>output\<close>.
\<close>

definition is_space :: "char \<Rightarrow> bool" where
  "is_space c \<longleftrightarrow> c \<in> {CHR '' '', CHR 0x09, CHR 0x0A, CHR 0x0B, CHR 0x0C, CHR 0x0D}"

definition parse_dbl :: "(string \<Rightarrow> real option) \<Rightarrow> string \<Rightarrow> bool \<times> real option" where
  "parse_dbl extract field =
     (True,
      if list_all is_space field then None
      else Some (case extract field of Some v \<Rightarrow> v | None \<Rightarrow> 0))"

text \<open>The conversion of the double \<open>cost_dollars\<close> to the constructor's \<open>size_t\<close>
  parameter: truncation, undefined when the truncated value does not fit.\<close>

definition double_to_size_t :: "real \<Rightarrow> nat option" where
  "double_to_size_t v = (if - 1 < v \<and> v < 2 ^ 64 then Some (nat \<lfloor>v\<rfloor>) else None)"

text \<open>The constructor: both assertions, then the \<open>size_t\<close> cost stored in an \<open>int\<close>
  member (reduced modulo \<open>2 ^ 32\<close>).\<close>

definition new_RideItem :: "string \<Rightarrow> nat \<Rightarrow> real \<Rightarrow> RideItem option" where
  "new_RideItem descr cost_dollars time_minutes =
     (if descr \<noteq> [] \<and> cost_dollars > 0
      then Some \<lparr>description = descr, cost = sint (word_of_nat cost_dollars :: 32 word),
                 time = time_minutes\<rparr>
      else None)"

text \<open>The loop over the lines after the header row.\<close>

fun load_lines :: "(string \<Rightarrow> real option) \<Rightarrow> string list \<Rightarrow> RideVector \<Rightarrow> load_result" where
  "load_lines extract [] result = Loaded result"
| "load_lines extract (line # rest) result =
     (let fields = getline_fields line in
      if length fields \<noteq> 3 then Failure
      else
        let descr_field = fields ! 0;
            cost_dollars_field = fields ! 1;
            time_minutes_field = fields ! 2;
            (ok_cost, cost_dollars) = parse_dbl extract cost_dollars_field;
            (ok_time, time_minutes) = parse_dbl extract time_minutes_field
        in if ok_cost \<and> ok_time
           then (case (cost_dollars, time_minutes) of
                   (Some cost_value, Some time_value) \<Rightarrow>
                     (case double_to_size_t cost_value of
                        None \<Rightarrow> Undefined_conversion
                      | Some c \<Rightarrow>
                          (case new_RideItem descr_field c time_value of
                             None \<Rightarrow> Assertion_failed
                           | Some item \<Rightarrow> load_lines extract rest (result @ [item])))
                 | _ \<Rightarrow> Uninitialised_read)
           else load_lines extract rest result)"

definition load_ride_database :: "(string \<Rightarrow> real option) \<Rightarrow> string list option \<Rightarrow> load_result" where
  "load_ride_database extract file =
     (case file of
        None \<Rightarrow> Failure
      | Some lines \<Rightarrow> load_lines extract (drop 1 lines) [])"

section \<open>Notions used to state and prove the properties\<close>

text \<open>
  \<open>sums_exactly rides\<close>: on every selection of the items (a subsequence, that is
  any choice of positions) \<open>sum_ride_vector\<close> returns the sum of the costs and the
  sum of the times: no \<open>int\<close> addition wraps around and no \<open>double\<close> addition rounds.
\<close>

definition sums_exactly :: "RideVector \<Rightarrow> bool" where
  "sums_exactly rides \<longleftrightarrow>
     (\<forall>s. subseq s rides \<longrightarrow>
        sum_ride_vector s = (sum_list (map cost s), Num (sum_list (map time s))))"

text \<open>
  The recurrence of the table: \<open>opt_time rides i j\<close> is what the cell \<open>cache[i][j]\<close>
  holds once row \<open>i\<close> is filled, when no addition rounds. The three predicates are the
  loop invariants of \<open>fill_cache\<close>: the shape of the table with its zero column, the
  rows filled so far, and the filled part of the current row.
\<close>

fun opt_time :: "RideVector \<Rightarrow> nat \<Rightarrow> int \<Rightarrow> real" where
  "opt_time rides 0 j = 0"
| "opt_time rides (Suc i) j =
     (if j - cost (rides ! i) \<ge> 0
      then max (time (rides ! i) + opt_time rides i (j - cost (rides ! i))) (opt_time rides i j)
      else opt_time rides i j)"

definition cache_dims :: "RideVector \<Rightarrow> int \<Rightarrow> double list list \<Rightarrow> bool" where
  "cache_dims rides B c \<longleftrightarrow>
     length c = length rides + 1 \<and> (\<forall>r < length c. length (c ! r) = nat (B + 2))
     \<and> (\<forall>r < length c. c ! r ! 0 = Num 0)"

definition rows_done :: "RideVector \<Rightarrow> int \<Rightarrow> double list list \<Rightarrow> nat \<Rightarrow> bool" where
  "rows_done rides B c i \<longleftrightarrow>
     (\<forall>r \<le> i. \<forall>j. 0 \<le> j \<and> j \<le> B \<longrightarrow> c ! r ! nat j = Num (opt_time rides r j))"

definition row_part :: "RideVector \<Rightarrow> double list list \<Rightarrow> nat \<Rightarrow> int \<Rightarrow> bool" where
  "row_part rides c i j \<longleftrightarrow>
     (\<forall>j'. 0 \<le> j' \<and> j' \<le> j \<longrightarrow> c ! i ! nat j' = Num (opt_time rides i j'))"

text \<open>
  For the exhaustive search: \<open>selection rides k\<close> is the candidate of the bit pattern
  \<open>k\<close> read on natural numbers, and \<open>best_after rides total_cost m\<close> is \<open>best\<close> after
  the iterations for the bit patterns \<open>0\<close> to \<open>m - 1\<close>.
\<close>

definition selection :: "RideVector \<Rightarrow> nat \<Rightarrow> RideVector" where
  "selection rides k = map (\<lambda>j. rides ! j) (filter (\<lambda>j. bit k j) [0..<length rides])"

primrec best_after :: "RideVector \<Rightarrow> real \<Rightarrow> nat \<Rightarrow> RideVector" where
  "best_after rides total_cost 0 = []"
| "best_after rides total_cost (Suc m) =
     exhaustive_step rides (length rides) total_cost (of_nat m) (best_after rides total_cost m)"

section \<open>Properties of filter_ride_vector\<close>

lemma filter_loop_pos:
  "int (length acc) < k \<Longrightarrow>
   filter_loop src lo hi k acc =
     acc @ take (nat k - length acc) (filter (\<lambda>r. lo \<le> time r \<and> time r \<le> hi \<and> 0 < time r) src)"
proof (induction src arbitrary: acc)
  case Nil
  then show ?case by simp
next
  case (Cons e es)
  show ?case
  proof (cases "lo \<le> time e \<and> time e \<le> hi \<and> 0 < time e")
    case keep: True
    show ?thesis
    proof (cases "k \<le> int (length acc) + 1")
      case True
      with Cons.prems have "nat k - length acc = 1" by linarith
      with True keep show ?thesis by simp
    next
      case False
      then have "int (length (acc @ [e])) < k" by simp
      from Cons.IH[OF this] False keep Cons.prems
      show ?thesis by (simp add: Suc_diff_le take_Cons' nat_less_iff)
    qed
  next
    case False
    with Cons.IH[OF Cons.prems] Cons.prems show ?thesis by auto
  qed
qed

lemma filter_ride_vector_pos:
  "1 \<le> k \<Longrightarrow>
   filter_ride_vector src lo hi k =
     take (nat k) (filter (\<lambda>r. lo \<le> time r \<and> time r \<le> hi \<and> 0 < time r) src)"
  using filter_loop_pos[of "[]" k src lo hi] by (simp add: filter_ride_vector_def)

lemma filter_ride_vector_nonpos:
  "k \<le> 0 \<Longrightarrow>
   filter_ride_vector src lo hi k =
     filter (\<lambda>r. lo \<le> time r \<and> time r \<le> hi \<and> 0 < time r) (take 1 src)"
  by (cases src) (auto simp: filter_ride_vector_def)

lemma filter_loop_set:
  "set (filter_loop src lo hi k acc)
     \<subseteq> set acc \<union> {r \<in> set src. lo \<le> time r \<and> time r \<le> hi \<and> 0 < time r}"
proof (induction src arbitrary: acc)
  case Nil
  show ?case by simp
next
  case (Cons e es)
  define acc' where
    "acc' = (if lo \<le> time e \<and> time e \<le> hi \<and> 0 < time e then acc @ [e] else acc)"
  have step: "filter_loop (e # es) lo hi k acc =
      (if k \<le> int (length acc') then acc' else filter_loop es lo hi k acc')"
    by (simp add: acc'_def)
  have acc': "set acc' \<subseteq> set acc \<union> {r \<in> set (e # es). lo \<le> time r \<and> time r \<le> hi \<and> 0 < time r}"
    by (auto simp: acc'_def)
  have "set (filter_loop es lo hi k acc')
      \<subseteq> set acc' \<union> {r \<in> set es. lo \<le> time r \<and> time r \<le> hi \<and> 0 < time r}"
    by (rule Cons.IH)
  with acc' have "set (filter_loop es lo hi k acc')
      \<subseteq> set acc \<union> {r \<in> set (e # es). lo \<le> time r \<and> time r \<le> hi \<and> 0 < time r}"
    by auto
  with acc' show ?case unfolding step by simp
qed

lemma filter_take_filter: "filter P (take n (filter P xs)) = take n (filter P xs)"
  by (metis filter_id_conv in_set_takeD mem_Collect_eq set_filter)

lemma filter_ride_vector_twice:
  assumes "k \<le> k'"
  shows "filter_ride_vector (filter_ride_vector src lo hi k) lo hi k' = filter_ride_vector src lo hi k"
proof (cases "1 \<le> k")
  case True
  with assms have k': "1 \<le> k'" by simp
  let ?P = "\<lambda>r. lo \<le> time r \<and> time r \<le> hi \<and> 0 < time r"
  have "take (nat k') (take (nat k) (filter ?P src)) = take (nat k) (filter ?P src)"
  proof -
    have "min (nat k') (nat k) = nat k" using assms by simp
    then show ?thesis by (simp only: take_take)
  qed
  then show ?thesis
    by (simp add: filter_ride_vector_pos[OF True] filter_ride_vector_pos[OF k'] filter_take_filter)
next
  case False
  then have k: "k \<le> 0" by simp
  let ?P = "\<lambda>r. lo \<le> time r \<and> time r \<le> hi \<and> 0 < time r"
  have out: "filter_ride_vector src lo hi k = filter ?P (take 1 src)"
    by (rule filter_ride_vector_nonpos[OF k])
  show ?thesis
  proof (cases "1 \<le> k'")
    case True
    have "take (nat k') (filter ?P (take 1 src)) = filter ?P (take 1 src)"
      using True by (cases src) auto
    then show ?thesis
      by (simp add: out filter_ride_vector_pos[OF True])
  next
    case False
    then have k': "k' \<le> 0" by simp
    have "filter ?P (take 1 (filter ?P (take 1 src))) = filter ?P (take 1 src)"
      by (cases src) auto
    then show ?thesis
      unfolding out filter_ride_vector_nonpos[OF k'] .
  qed
qed

lemma filter_ride_vector_empty_range:
  "hi < lo \<Longrightarrow> filter_ride_vector src lo hi k = []"
proof -
  have "filter_loop src lo hi k [] = []" if "hi < lo"
    using that by (induction src) auto
  then show "hi < lo \<Longrightarrow> filter_ride_vector src lo hi k = []"
    by (simp add: filter_ride_vector_def)
qed

text \<open>
  C5, as stated, fails: an item whose time is 0 lies in the range \<open>[-1, 1]\<close> and is
  left out all the same, because the loop also asks for a positive time.
\<close>

theorem filter_ride_vector_range_counterexample:
  "filter_ride_vector [\<lparr>description = ''idle'', cost = 1, time = 0\<rparr>] (- 1) 1 5
     \<noteq> filter_ride_vector_spec [\<lparr>description = ''idle'', cost = 1, time = 0\<rparr>] (- 1) 1 5"
  by (simp add: filter_ride_vector_def filter_ride_vector_spec_def)

text \<open>
  C5, amended: for a maximum size of at least 1, \<open>filter_ride_vector\<close> returns, in
  source order, the items whose time lies in \<open>[min_time, max_time]\<close> and is positive,
  cut after the first \<open>total_size\<close> of them.
\<close>

theorem filter_ride_vector_positive_in_range:
  "1 \<le> total_size \<Longrightarrow>
   filter_ride_vector source min_time max_time total_size =
     take (nat total_size)
       (filter (\<lambda>r. min_time \<le> time r \<and> time r \<le> max_time \<and> 0 < time r) source)"
  by (rule filter_ride_vector_pos)

theorem filter_ride_vector_positive_in_range_witness:
  "filter_ride_vector
     [\<lparr>description = ''a'', cost = 1, time = - 1\<rparr>, \<lparr>description = ''b'', cost = 1, time = 0\<rparr>,
      \<lparr>description = ''c'', cost = 1, time = 5\<rparr>, \<lparr>description = ''d'', cost = 1, time = 10\<rparr>,
      \<lparr>description = ''e'', cost = 1, time = 20\<rparr>] (- 2) 30 2 =
   [\<lparr>description = ''c'', cost = 1, time = 5\<rparr>, \<lparr>description = ''d'', cost = 1, time = 10\<rparr>]"
  using filter_ride_vector_positive_in_range
    [of 2 "[\<lparr>description = ''a'', cost = 1, time = - 1\<rparr>, \<lparr>description = ''b'', cost = 1, time = 0\<rparr>,
      \<lparr>description = ''c'', cost = 1, time = 5\<rparr>, \<lparr>description = ''d'', cost = 1, time = 10\<rparr>,
      \<lparr>description = ''e'', cost = 1, time = 20\<rparr>]" "- 2" 30]
  by simp

text \<open>
  C6, at the failing input: with \<open>total_size = 0\<close> the first item of the source is
  still appended when it passes the test, since the size is compared only after the
  append. (The other half of C6 holds: \<open>filter_ride_vector_empty_range\<close>.)
\<close>

theorem filter_ride_vector_size_zero_keeps_first:
  "filter_ride_vector [\<lparr>description = ''coaster'', cost = 1, time = 5\<rparr>] 0 10 0 =
     [\<lparr>description = ''coaster'', cost = 1, time = 5\<rparr>]"
  by (simp add: filter_ride_vector_def)

text \<open>
  C9: filtering the output of \<open>filter_ride_vector\<close> again, with the same range and a
  size bound that is not smaller, returns that output.
\<close>

theorem filter_ride_vector_idempotent:
  "total_size \<le> total_size' \<Longrightarrow>
   filter_ride_vector (filter_ride_vector source min_time max_time total_size)
       min_time max_time total_size' =
     filter_ride_vector source min_time max_time total_size"
  by (rule filter_ride_vector_twice)

theorem filter_ride_vector_idempotent_witness:
  "filter_ride_vector
     (filter_ride_vector
        [\<lparr>description = ''a'', cost = 1, time = 0\<rparr>, \<lparr>description = ''b'', cost = 1, time = 5\<rparr>,
         \<lparr>description = ''c'', cost = 1, time = 7\<rparr>] 1 9 1) 1 9 3 =
   filter_ride_vector
     [\<lparr>description = ''a'', cost = 1, time = 0\<rparr>, \<lparr>description = ''b'', cost = 1, time = 5\<rparr>,
      \<lparr>description = ''c'', cost = 1, time = 7\<rparr>] 1 9 1
   \<and> filter_ride_vector
     [\<lparr>description = ''a'', cost = 1, time = 0\<rparr>, \<lparr>description = ''b'', cost = 1, time = 5\<rparr>,
      \<lparr>description = ''c'', cost = 1, time = 7\<rparr>] 1 9 1 = [\<lparr>description = ''b'', cost = 1, time = 5\<rparr>]"
  using filter_ride_vector_idempotent
    [of 1 3 "[\<lparr>description = ''a'', cost = 1, time = 0\<rparr>, \<lparr>description = ''b'', cost = 1, time = 5\<rparr>,
         \<lparr>description = ''c'', cost = 1, time = 7\<rparr>]" 1 9]
  by (simp add: filter_ride_vector_def)

text \<open>
  C10: every item that \<open>filter_ride_vector\<close> returns has a positive time, whatever the
  range and the size bound.
\<close>

theorem filter_ride_vector_times_positive:
  "r \<in> set (filter_ride_vector source min_time max_time total_size) \<Longrightarrow> 0 < time r"
  using filter_loop_set [of source min_time max_time total_size "[]"]
  by (auto simp: filter_ride_vector_def)

theorem filter_ride_vector_times_positive_witness:
  "\<lparr>description = ''c'', cost = 1, time = 5\<rparr>
     \<in> set (filter_ride_vector
              [\<lparr>description = ''b'', cost = 1, time = 0\<rparr>, \<lparr>description = ''c'', cost = 1, time = 5\<rparr>]
              (- 1) 10 3)
   \<and> 0 < time \<lparr>description = ''c'', cost = 1, time = 5\<rparr>"
  using filter_ride_vector_times_positive
    [of "\<lparr>description = ''c'', cost = 1, time = 5\<rparr>"
        "[\<lparr>description = ''b'', cost = 1, time = 0\<rparr>, \<lparr>description = ''c'', cost = 1, time = 5\<rparr>]"
        "- 1" 10 3]
  by (simp add: filter_ride_vector_def)

section \<open>Properties of load_ride_database\<close>

lemma load_ride_database_field_count:
  "length (getline_fields line) \<noteq> 3 \<Longrightarrow>
   load_ride_database extract (Some (header # line # rest)) = Failure"
  by (simp add: load_ride_database_def)

text \<open>
  C7, at the failing input: a record whose time field holds no number is not skipped.
  \<open>parse_dbl\<close> answers \<open>true\<close> without looking at the outcome of the extraction, so the
  record is loaded, with the time 0 that the failed extraction stores. (The other half
  of C7 holds: \<open>load_ride_database_field_count\<close>.)
\<close>

theorem load_ride_database_keeps_unparsable:
  "load_ride_database (\<lambda>field. if field = ''5'' then Some 5 else None)
     (Some [''ride^cost^time'', ''coaster^5^fast'']) =
   Loaded [\<lparr>description = ''coaster'', cost = 5, time = 0\<rparr>]"
  by (simp add: load_ride_database_def getline_fields.simps parse_dbl_def is_space_def
      double_to_size_t_def new_RideItem_def)

section \<open>Properties of the machine arithmetic and of sum_ride_vector\<close>

lemma bit_length_upper: "b < 2 ^ bit_length b"
proof (induction b rule: bit_length.induct)
  case (1 b)
  show ?case
  proof (cases "b = 0")
    case True
    then show ?thesis by (simp add: bit_length.simps)
  next
    case False
    with 1 have "b div 2 < 2 ^ bit_length (b div 2)" by simp
    then have "b < 2 * 2 ^ bit_length (b div 2)" by linarith
    with False show ?thesis by (simp add: bit_length.simps[of b])
  qed
qed

lemma bit_length_le: "b < 2 ^ k \<Longrightarrow> bit_length b \<le> k"
proof (induction k arbitrary: b)
  case 0
  then show ?case by (simp add: bit_length.simps)
next
  case (Suc k)
  show ?case
  proof (cases "b = 0")
    case True
    then show ?thesis by (simp add: bit_length.simps)
  next
    case False
    from Suc.prems have "b div 2 < 2 ^ k" by simp
    then have "bit_length (b div 2) \<le> k" by (rule Suc.IH)
    with False show ?thesis by (simp add: bit_length.simps[of b])
  qed
qed

lemma bit_length_gt: "2 ^ k \<le> b \<Longrightarrow> k < bit_length b"
  using bit_length_upper[of b] by (metis leD leI le_less_trans power_increasing one_le_numeral)


lemma wrap_int_id: "- (2 ^ 31) \<le> x \<Longrightarrow> x < 2 ^ 31 \<Longrightarrow> wrap_int x = x"
  by (simp add: wrap_int_def signed_of_int signed_take_bit_int_eq_self)

lemma wrap_int_range: "- (2 ^ 31) \<le> wrap_int x \<and> wrap_int x < 2 ^ 31"
  using sint_ge[of "word_of_int x :: 32 word"] sint_lt[of "word_of_int x :: 32 word"]
  by (simp add: wrap_int_def)

lemma round_half_even_of_int: "round_half_even (of_int k) = k"
  by (simp add: round_half_even_def)

lemma bit_length_pos: "0 < n \<Longrightarrow> 0 < bit_length n"
  by (simp add: bit_length.simps[of n])

lemma round_double_whole:
  assumes "x \<in> \<int>" and "\<bar>x\<bar> \<le> 2 ^ 53"
  shows "round_double x = Num x"
proof (cases "x = 0")
  case True
  then show ?thesis by (simp add: round_double_def)
next
  case False
  from assms(1) obtain k :: int where k: "x = of_int k" by (auto elim: Ints_cases)
  with False have k0: "k \<noteq> 0" by simp
  define n where "n = nat \<bar>k\<bar>"
  have n: "0 < n" "int n = \<bar>k\<bar>" using k0 by (simp_all add: n_def)
  have nle: "n \<le> 2 ^ 53"
  proof -
    from assms(2) k have "of_int \<bar>k\<bar> \<le> (2 ^ 53 :: real)" by simp
    then have "\<bar>k\<bar> \<le> 2 ^ 53" by (metis of_int_le_iff of_int_numeral of_int_power)
    then show ?thesis by (simp add: n_def nat_le_iff)
  qed
  have absx: "\<bar>x\<bar> = of_nat n" using n(2) k by (metis of_int_abs of_int_of_nat_eq)
  have one: "1 \<le> \<bar>x\<bar>" using n(1) absx by simp
  have fl: "nat \<lfloor>\<bar>x\<bar>\<rfloor> = n" by (simp add: absx)
  define e where "e = int (bit_length n) - 1"
  have be: "binary_exponent x = e"
    using one by (simp add: binary_exponent_def fl e_def)
  have e0: "0 \<le> e" using bit_length_pos[OF n(1)] by (simp add: e_def)
  have "n < 2 ^ 54" using nle by simp
  then have "bit_length n \<le> 54" by (rule bit_length_le)
  then have e53: "e \<le> 53" by (simp add: e_def)
  have mx: "max e (- 1022) = e" using e0 by simp
  have whole: "\<exists>m :: int. x / 2 powi (e - 52) = of_int m"
  proof (cases "e \<le> 52")
    case True
    then have "(2::real) powi (e - 52) = 1 / 2 ^ nat (52 - e)"
      by (simp add: power_int_def field_simps)
    then have "x / 2 powi (e - 52) = of_int (k * 2 ^ nat (52 - e))"
      by (simp add: k)
    then show ?thesis by blast
  next
    case False
    with e53 have e: "e = 53" by simp
    then have "bit_length n = 54" by (simp add: e_def)
    have "\<not> n < 2 ^ 53"
    proof
      assume "n < 2 ^ 53"
      then have "bit_length n \<le> 53" by (rule bit_length_le)
      with \<open>bit_length n = 54\<close> show False by simp
    qed
    with nle have "n = 2 ^ 53" by simp
    with n(2) have "\<bar>k\<bar> = 2 ^ 53" by simp
    then have "k = 2 ^ 53 \<or> k = - (2 ^ 53)" by linarith
    then have "k = 2 * (k div 2)" by auto
    then have "x / 2 powi (e - 52) = of_int (k div 2)"
      unfolding e k by (simp add: field_simps)
    then show ?thesis by blast
  qed
  then obtain m :: int where m: "x / 2 powi (e - 52) = of_int m" by blast
  have pos: "(2::real) powi (e - 52) \<noteq> 0" by simp
  have y: "of_int (round_half_even (x / 2 powi (e - 52))) * 2 powi (e - 52) = x"
    unfolding m round_half_even_of_int using m pos by (metis nonzero_divide_eq_eq)
  have "\<bar>x\<bar> < 2 ^ 1024"
  proof -
    have "(2::real) ^ 53 < 2 ^ 1024" by (rule power_strict_increasing) simp_all
    with assms(2) show ?thesis by linarith
  qed
  then have "\<not> 2 ^ 1024 \<le> x" "\<not> x \<le> - (2 ^ 1024)" by linarith+
  with False show ?thesis
    by (simp add: round_double_def be mx Let_def y)
qed

lemma dadd_whole:
  "a \<in> \<int> \<Longrightarrow> b \<in> \<int> \<Longrightarrow> \<bar>a + b\<bar> \<le> 2 ^ 53 \<Longrightarrow> dadd (Num a) (Num b) = Num (a + b)"
  by (simp add: round_double_whole)


lemma sum_ride_vector_Nil [simp]: "sum_ride_vector [] = (0, Num 0)"
  by (simp add: sum_ride_vector_def)

lemma sum_ride_vector_snoc:
  "sum_ride_vector (s @ [x]) =
     (wrap_int (fst (sum_ride_vector s) + cost x), dadd (snd (sum_ride_vector s)) (Num (time x)))"
  by (simp add: sum_ride_vector_def case_prod_beta)

lemma sum_list_whole: "\<forall>r \<in> set s. time r \<in> \<int> \<Longrightarrow> sum_list (map time s) \<in> \<int>"
  by (induction s) auto

lemma sum_list_abs: "\<bar>sum_list (map time s)\<bar> \<le> sum_list (map (\<lambda>r. \<bar>time r\<bar>) s)"
  by (induction s) auto

lemma sum_cost_nonneg:
  "\<forall>r \<in> set s. 0 < cost r \<Longrightarrow> 0 \<le> sum_list (map cost s)"
  by (induction s) auto

lemma sum_ride_vector_whole:
  assumes "\<forall>r \<in> set s. 0 < cost r" and "sum_list (map cost s) < 2 ^ 31"
    and "\<forall>r \<in> set s. time r \<in> \<int>" and "sum_list (map (\<lambda>r. \<bar>time r\<bar>) s) \<le> 2 ^ 53"
  shows "sum_ride_vector s = (sum_list (map cost s), Num (sum_list (map time s)))"
  using assms
proof (induction s rule: rev_induct)
  case Nil
  show ?case by simp
next
  case (snoc x s)
  from snoc.prems have x: "0 < cost x" "time x \<in> \<int>" by simp_all
  have IH: "sum_ride_vector s = (sum_list (map cost s), Num (sum_list (map time s)))"
  proof (rule snoc.IH)
    show "\<forall>r \<in> set s. 0 < cost r" "\<forall>r \<in> set s. time r \<in> \<int>" using snoc.prems by simp_all
    show "sum_list (map cost s) < 2 ^ 31" using snoc.prems(2) x(1) by simp
    have "0 \<le> \<bar>time x\<bar>" by simp
    with snoc.prems(4) show "sum_list (map (\<lambda>r. \<bar>time r\<bar>) s) \<le> 2 ^ 53" by simp
  qed
  have "0 \<le> sum_list (map cost (s @ [x]))"
    using snoc.prems(1) by (rule sum_cost_nonneg)
  with snoc.prems(2) have c: "wrap_int (sum_list (map cost s) + cost x) = sum_list (map cost s) + cost x"
    by (intro wrap_int_id) simp_all
  have "\<bar>sum_list (map time (s @ [x]))\<bar> \<le> 2 ^ 53"
    using sum_list_abs[of "s @ [x]"] snoc.prems(4) by linarith
  moreover have "sum_list (map time s) \<in> \<int>"
    using snoc.prems(3) by (intro sum_list_whole) simp
  ultimately have t: "dadd (Num (sum_list (map time s))) (Num (time x))
      = Num (sum_list (map time s) + time x)"
    using x(2) by (intro dadd_whole) simp_all
  show ?case unfolding sum_ride_vector_snoc IH fst_conv snd_conv c t by simp
qed

lemma subseq_set: "subseq s xs \<Longrightarrow> set s \<subseteq> set xs"
  by (auto elim: list_emb_set)

lemma subseq_sum_le:
  fixes f :: "'a \<Rightarrow> 'b :: linordered_idom"
  assumes "subseq s xs" and "\<forall>x \<in> set xs. 0 \<le> f x"
  shows "sum_list (map f s) \<le> sum_list (map f xs)"
  using assms
proof (induction rule: list_emb.induct)
  case (list_emb_Nil ys)
  then have "\<And>y. y \<in> set (map f ys) \<Longrightarrow> 0 \<le> y" by auto
  then have "0 \<le> sum_list (map f ys)" by (rule sum_list_nonneg)
  then show ?case by simp
next
  case (list_emb_Cons xs ys y)
  then have "sum_list (map f xs) \<le> sum_list (map f ys)" "0 \<le> f y" by simp_all
  then show ?case by simp
next
  case (list_emb_Cons2 x y xs ys)
  then show ?case by simp
qed

lemma whole_sums_exactly:
  assumes "\<forall>r \<in> set rides. 0 < cost r" and "sum_list (map cost rides) < 2 ^ 31"
    and "\<forall>r \<in> set rides. time r \<in> \<int>" and "sum_list (map (\<lambda>r. \<bar>time r\<bar>) rides) \<le> 2 ^ 53"
  shows "sums_exactly rides"
  unfolding sums_exactly_def
proof (intro allI impI)
  fix s assume s: "subseq s rides"
  then have sub: "set s \<subseteq> set rides" by (rule subseq_set)
  show "sum_ride_vector s = (sum_list (map cost s), Num (sum_list (map time s)))"
  proof (rule sum_ride_vector_whole)
    show "\<forall>r \<in> set s. 0 < cost r" "\<forall>r \<in> set s. time r \<in> \<int>" using sub assms(1,3) by auto
    have "sum_list (map cost s) \<le> sum_list (map cost rides)"
      using s assms(1) by (intro subseq_sum_le) (auto intro: less_imp_le)
    with assms(2) show "sum_list (map cost s) < 2 ^ 31" by simp
    have "sum_list (map (\<lambda>r. \<bar>time r\<bar>) s) \<le> sum_list (map (\<lambda>r. \<bar>time r\<bar>) rides)"
      using s by (intro subseq_sum_le) simp_all
    with assms(4) show "sum_list (map (\<lambda>r. \<bar>time r\<bar>) s) \<le> 2 ^ 53" by simp
  qed
qed

lemma sums_exactly_snoc:
  assumes "sums_exactly rides" and "subseq (s @ [x]) rides"
  shows "wrap_int (sum_list (map cost s) + cost x) = sum_list (map cost s) + cost x"
    and "dadd (Num (sum_list (map time s))) (Num (time x)) = Num (sum_list (map time s) + time x)"
proof -
  have "subseq s (s @ [x])" by (simp add: subseq_rev_drop_many)
  from this assms(2) have "subseq s rides" by (rule subseq_order.trans)
  with assms(1) have s: "sum_ride_vector s = (sum_list (map cost s), Num (sum_list (map time s)))"
    by (simp add: sums_exactly_def)
  from assms have "sum_ride_vector (s @ [x])
      = (sum_list (map cost (s @ [x])), Num (sum_list (map time (s @ [x]))))"
    by (simp add: sums_exactly_def)
  then show "wrap_int (sum_list (map cost s) + cost x) = sum_list (map cost s) + cost x"
    and "dadd (Num (sum_list (map time s))) (Num (time x)) = Num (sum_list (map time s) + time x)"
    by (simp_all add: sum_ride_vector_snoc s)
qed

lemma sums_exactly_representable:
  assumes "sums_exactly rides" and "subseq s rides"
  shows "wrap_int (sum_list (map cost s)) = sum_list (map cost s)"
    and "round_double (sum_list (map time s)) = Num (sum_list (map time s))"
proof -
  have "wrap_int (sum_list (map cost s)) = sum_list (map cost s)
      \<and> round_double (sum_list (map time s)) = Num (sum_list (map time s))"
  proof (cases s rule: rev_cases)
    case Nil
    then show ?thesis by (simp add: wrap_int_id round_double_def)
  next
    case (snoc s' x)
    with sums_exactly_snoc[OF assms(1), of s' x] assms(2) show ?thesis by simp
  qed
  then show "wrap_int (sum_list (map cost s)) = sum_list (map cost s)"
    and "round_double (sum_list (map time s)) = Num (sum_list (map time s))" by simp_all
qed

lemma sums_exactly_rev:
  assumes "sums_exactly rides"
  shows "subseq (rev l) rides \<Longrightarrow>
    sum_ride_vector l = (sum_list (map cost l), Num (sum_list (map time l)))"
proof (induction l rule: rev_induct)
  case Nil
  show ?case by simp
next
  case (snoc x l)
  from snoc.prems have "subseq (rev l) rides" by (simp add: subseq_Cons')
  then have IH: "sum_ride_vector l = (sum_list (map cost l), Num (sum_list (map time l)))"
    by (rule snoc.IH)
  have sums: "sum_list (map cost (rev (l @ [x]))) = sum_list (map cost l) + cost x"
    "sum_list (map time (rev (l @ [x]))) = sum_list (map time l) + time x"
    by (simp_all add: rev_map[symmetric] del: rev_map rev_append)
  from sums_exactly_representable[OF assms snoc.prems]
  show ?case unfolding sums sum_ride_vector_snoc IH fst_conv snd_conv
    by (simp only: dadd.simps list.map map_append sum_list.append sum_list.Cons sum_list.Nil
        add_0_right)
qed

lemma int_range_Some: "b < 2 ^ 31 - 1 \<Longrightarrow> int_range a b = Some [a..b]"
  by (simp add: int_range_def)

lemma int_of_size_id: "n < 2 ^ 31 \<Longrightarrow> int_of_size n = int n"
  unfolding int_of_size_def by (rule wrap_int_id) simp_all

lemma exhaustive_run_small:
  assumes "length rides \<le> 64"
  shows "exhaustive_run rides total_cost =
     exhaustive_loop rides (length rides) total_cost 0 ([], [])"
proof -
  have "int_of_size (length rides) = int (length rides)"
    using assms by (intro int_of_size_id) simp
  then show ?thesis using assms by (simp add: exhaustive_run_def)
qed

text \<open>Roundings used in the examples below.\<close>

lemma round_double_1e16: "round_double 10000000000000000 = Num 10000000000000000"
proof -
  have "bit_length 10000000000000000 = 54" by (simp add: bit_length.simps)
  then show ?thesis
    by (simp add: round_double_def binary_exponent_def round_half_even_def Let_def power_int_def)
qed

lemma round_double_1e16_1: "round_double 10000000000000001 = Num 10000000000000000"
proof -
  have "bit_length 10000000000000001 = 54" by (simp add: bit_length.simps)
  then show ?thesis
    by (simp add: round_double_def binary_exponent_def round_half_even_def Let_def power_int_def)
qed

lemma round_double_1e16_2: "round_double 10000000000000002 = Num 10000000000000002"
proof -
  have "bit_length 10000000000000002 = 54" by (simp add: bit_length.simps)
  then show ?thesis
    by (simp add: round_double_def binary_exponent_def round_half_even_def Let_def power_int_def)
qed

lemma round_double_2e16: "round_double 20000000000000000 = Num 20000000000000000"
proof -
  have "bit_length 20000000000000000 = 55" by (simp add: bit_length.simps)
  then show ?thesis
    by (simp add: round_double_def binary_exponent_def round_half_even_def Let_def power_int_def)
qed

lemma round_double_2e16_2: "round_double 20000000000000002 = Num 20000000000000000"
proof -
  have "bit_length 20000000000000002 = 55" by (simp add: bit_length.simps)
  then show ?thesis
    by (simp add: round_double_def binary_exponent_def round_half_even_def Let_def power_int_def)
qed

lemmas round_double_values =
  round_double_1e16 round_double_1e16_1 round_double_1e16_2 round_double_2e16
  round_double_2e16_2

lemmas dynamic_max_time_run =
  dynamic_max_time_def init_cache_def fill_cache_def int_range_def int_of_size_def
  wrap_int_def dp_cell_def cache_at_def cache_set_def upto_rec1 eval_nat_numeral

lemmas exhaustive_max_time_run =
  exhaustive_max_time_def exhaustive_run_small exhaustive_loop.simps exhaustive_step_def
  candidate_of_def size_t_to_double_def sum_ride_vector_def wrap_int_def

section \<open>Properties of dynamic_max_time\<close>

lemma for_each_upto:
  assumes "a \<le> b + 1" and "P (a - 1) s"
    and step: "\<And>j s. a \<le> j \<Longrightarrow> j \<le> b \<Longrightarrow> P (j - 1) s \<Longrightarrow> \<exists>s'. body j s = Some s' \<and> P j s'"
  shows "\<exists>s'. for_each [a..b] body s = Some s' \<and> P b s'"
proof -
  have "\<exists>s'. for_each [k..b] body s = Some s' \<and> P b s'"
    if "a \<le> k" "k \<le> b + 1" "P (k - 1) s" for k s
    using that
  proof (induction "nat (b + 1 - k)" arbitrary: k s)
    case 0
    then have "k = b + 1" by simp
    with 0 show ?case by simp
  next
    case (Suc n)
    then have kb: "k \<le> b" by linarith
    from step[OF Suc.prems(1) kb Suc.prems(3)]
    obtain s1 where s1: "body k s = Some s1" "P k s1" by auto
    have "n = nat (b + 1 - (k + 1))" using Suc.hyps(2) by linarith
    moreover have "a \<le> k + 1" using Suc.prems(1) by simp
    moreover have "k + 1 \<le> b + 1" using kb by simp
    moreover have "P (k + 1 - 1) s1" using s1 by simp
    ultimately obtain s' where "for_each [k + 1..b] body s1 = Some s'" "P b s'"
      using Suc.hyps(1) by blast
    with s1 kb show ?case by (simp add: upto_rec1)
  qed
  from this[OF order_refl assms(1,2)] show ?thesis .
qed

lemma opt_time_zero:
  "\<forall>r \<in> set rides. 0 < cost r \<Longrightarrow> i \<le> length rides \<Longrightarrow> opt_time rides i 0 = 0"
proof (induction i)
  case 0
  show ?case by simp
next
  case (Suc i)
  then have "i < length rides" by simp
  then have "rides ! i \<in> set rides" by (rule nth_mem)
  with Suc.prems(1) have "0 < cost (rides ! i)" by blast
  then have "\<not> 0 - cost (rides ! i) \<ge> 0" by simp
  moreover have "opt_time rides i 0 = 0" using Suc by simp
  ultimately show ?case by (simp only: opt_time.simps if_False)
qed

lemma opt_time_mono_row: "opt_time rides i j \<le> opt_time rides (Suc i) j"
  by simp


lemma subseq_take: "subseq (take n xs) xs"
  by (metis append_take_drop_id subseq_rev_drop_many subseq_order.refl)

lemma opt_time_attained:
  "i \<le> length rides \<Longrightarrow> 0 \<le> j \<Longrightarrow>
   \<exists>s. subseq s (take i rides) \<and> sum_list (map cost s) \<le> j
       \<and> sum_list (map time s) = opt_time rides i j"
proof (induction i arbitrary: j)
  case 0
  then show ?case by (intro exI[of _ "[]"]) simp
next
  case (Suc i)
  define x where "x = rides ! i"
  have tk: "take (Suc i) rides = take i rides @ [x]"
    using Suc.prems by (simp add: take_Suc_conv_app_nth x_def)
  have i: "i \<le> length rides" using Suc.prems by simp
  show ?case
  proof (cases "j - cost x \<ge> 0 \<and> opt_time rides i j < time x + opt_time rides i (j - cost x)")
    case True
    then have "0 \<le> j - cost x" by simp
    from Suc.IH[OF i this] obtain s where
      s: "subseq s (take i rides)" "sum_list (map cost s) \<le> j - cost x"
        "sum_list (map time s) = opt_time rides i (j - cost x)"
      by blast
    have "subseq (s @ [x]) (take (Suc i) rides)" unfolding tk using s(1) by simp
    moreover have "sum_list (map cost (s @ [x])) \<le> j" using s(2) by simp
    moreover have "sum_list (map time (s @ [x])) = opt_time rides (Suc i) j"
      using s(3) True by (simp add: x_def max_def)
    ultimately show ?thesis by blast
  next
    case False
    then have eq: "opt_time rides (Suc i) j = opt_time rides i j"
      by (auto simp: x_def max_def)
    from Suc.IH[OF i Suc.prems(2)] obtain s where
      s: "subseq s (take i rides)" "sum_list (map cost s) \<le> j"
        "sum_list (map time s) = opt_time rides i j"
      by blast
    have "subseq s (take (Suc i) rides)" unfolding tk using s(1) by (rule subseq_rev_drop_many)
    with s(2,3) eq show ?thesis by auto
  qed
qed

lemma sums_exactly_cost_range:
  assumes "sums_exactly rides" and "x \<in> set rides"
  shows "cost x < 2 ^ 31"
proof -
  from assms(2) have "subseq [x] rides" by (simp add: subseq_singleton_left)
  from sums_exactly_representable(1)[OF assms(1) this] have "wrap_int (cost x) = cost x" by simp
  with wrap_int_range[of "cost x"] show ?thesis by simp
qed

lemma dmax_Num [simp]: "dmax (Num a) (Num b) = Num (max a b)"
  by (simp add: dmax_def max_def)

lemma dp_cell_step:
  assumes ex: "sums_exactly rides" and pos: "\<forall>r \<in> set rides. 0 < cost r"
    and i: "1 \<le> i" "i \<le> int (length rides)" and j: "1 \<le> j" "j \<le> B" and B: "B < 2 ^ 31"
    and dims: "cache_dims rides B c" and rows: "rows_done rides B c (nat (i - 1))"
    and part: "row_part rides c (nat i) (j - 1)"
  shows "\<exists>c'. dp_cell rides i j c = Some c' \<and> cache_dims rides B c'
           \<and> rows_done rides B c' (nat (i - 1)) \<and> row_part rides c' (nat i) j"
proof -
  define i' where "i' = nat (i - 1)"
  have i': "nat i = Suc i'" "i' < length rides" "i - 1 = int i'" "i = int (Suc i')"
    using i by (simp_all add: i'_def)
  define item where "item = rides ! i'"
  have item: "item \<in> set rides" using i'(2) by (simp add: item_def)
  with pos have cost: "0 < cost item" by blast
  from sums_exactly_cost_range[OF ex item] have cmax: "cost item < 2 ^ 31" .
  have wr_c: "wrap_int (j - cost item) = j - cost item"
    using cost cmax j B by (intro wrap_int_id) simp_all
  have len: "length c = length rides + 1"
    and rowlen: "\<And>r. r < length c \<Longrightarrow> length (c ! r) = nat (B + 2)"
    and col0: "\<And>r. r < length c \<Longrightarrow> c ! r ! 0 = Num 0"
    using dims by (simp_all add: cache_dims_def)
  have rd: "cache_at c (i - 1) k = Some (Num (opt_time rides i' k))" if "0 \<le> k" "k \<le> B" for k
  proof -
    have "i' < length c" using i'(2) len by simp
    moreover from this have "length (c ! i') = nat (B + 2)" by (rule rowlen)
    moreover have "c ! i' ! nat k = Num (opt_time rides i' k)"
      using rows that by (simp add: rows_done_def i'_def)
    ultimately show ?thesis using that by (simp add: cache_at_def i'(3))
  qed
  define v where "v = opt_time rides (Suc i') j"
  have v: "v = (if j - cost item \<ge> 0
      then max (time item + opt_time rides i' (j - cost item)) (opt_time rides i' j)
      else opt_time rides i' j)"
    by (simp add: v_def item_def)
  have res: "(if wrap_int (j - cost item) \<ge> 0
           then do {
             a \<leftarrow> cache_at c (i - 1) (wrap_int (j - cost item));
             b \<leftarrow> cache_at c (i - 1) j;
             Some (dmax (dadd (Num (time item)) a) b)
           }
           else cache_at c (i - 1) j) = Some (Num v)"
  proof (cases "j - cost item \<ge> 0")
    case True
    have a: "cache_at c (i - 1) (j - cost item) = Some (Num (opt_time rides i' (j - cost item)))"
      using True cost j by (intro rd) simp_all
    have b: "cache_at c (i - 1) j = Some (Num (opt_time rides i' j))"
      using j by (intro rd) simp_all
    from opt_time_attained[of i' rides "j - cost item"] i'(2) True obtain s where
      s: "subseq s (take i' rides)" "sum_list (map time s) = opt_time rides i' (j - cost item)"
      by auto
    have "subseq (s @ [item]) (take (Suc i') rides)"
      using s(1) i'(2) by (simp add: take_Suc_conv_app_nth item_def)
    from this subseq_take have "subseq (s @ [item]) rides" by (rule subseq_order.trans)
    from sums_exactly_representable(2)[OF ex this]
    have "round_double (time item + opt_time rides i' (j - cost item))
        = Num (time item + opt_time rides i' (j - cost item))"
      by (simp add: s(2) add.commute)
    then show ?thesis using True by (simp add: wr_c a b v)
  next
    case False
    have "cache_at c (i - 1) j = Some (Num (opt_time rides i' j))"
      using j by (intro rd) simp_all
    with False show ?thesis by (simp add: wr_c v)
  qed
  define c' where "c' = c[Suc i' := (c ! Suc i')[nat j := Num v]]"
  have in_c: "Suc i' < length c" using i'(2) len by simp
  have rl: "length (c ! Suc i') = nat (B + 2)" using in_c by (rule rowlen)
  have wr: "cache_set c i j (Num v) = Some c'"
    using in_c rl j by (simp add: cache_set_def c'_def i'(4) del: of_nat_Suc)
  have cell: "dp_cell rides i j c = Some c'"
    unfolding dp_cell_def Let_def item_def[symmetric, unfolded i'_def] res
    using wr by simp
  have nj: "nat j \<noteq> 0" using j by simp
  have dims': "cache_dims rides B c'"
    unfolding cache_dims_def
  proof (intro conjI allI impI)
    show "length c' = length rides + 1" by (simp add: c'_def len)
  next
    fix r assume "r < length c'"
    then have r: "r < length c" by (simp add: c'_def)
    then show "length (c' ! r) = nat (B + 2)"
      using rowlen[OF r] rl by (cases "r = Suc i'") (simp_all add: c'_def)
  next
    fix r assume "r < length c'"
    then have r: "r < length c" by (simp add: c'_def)
    then show "c' ! r ! 0 = Num 0"
      using col0[OF r] nj by (cases "r = Suc i'") (simp_all add: c'_def)
  qed
  have rows': "rows_done rides B c' (nat (i - 1))"
    using rows by (simp add: rows_done_def c'_def i'_def[symmetric])
  have part': "row_part rides c' (nat i) j"
    unfolding row_part_def
  proof (intro allI impI)
    fix k assume k: "0 \<le> k \<and> k \<le> j"
    show "c' ! nat i ! nat k = Num (opt_time rides (nat i) k)"
    proof (cases "k = j")
      case True
      have "nat j < length (c ! Suc i')" using rl j by simp
      then show ?thesis using in_c by (simp add: True c'_def i'(1) v_def)
    next
      case False
      with k have "0 \<le> k \<and> k \<le> j - 1" by simp
      with part have "c ! nat i ! nat k = Num (opt_time rides (nat i) k)"
        by (simp add: row_part_def)
      moreover have "nat k \<noteq> nat j" using False k by linarith
      ultimately show ?thesis using in_c by (simp add: c'_def i'(1))
    qed
  qed
  from cell dims' rows' part' show ?thesis by blast
qed


lemma dp_row:
  assumes ex: "sums_exactly rides" and pos: "\<forall>r \<in> set rides. 0 < cost r"
    and B: "0 \<le> B" "B \<le> 2 ^ 31 - 3"
    and i: "1 \<le> i" "i \<le> int (length rides)"
    and dims: "cache_dims rides B c" and rows: "rows_done rides B c (nat (i - 1))"
  shows "\<exists>c'. do { columns \<leftarrow> int_range 1 B; for_each columns (\<lambda>j. dp_cell rides i j) c } = Some c'
           \<and> cache_dims rides B c' \<and> rows_done rides B c' (nat i)"
proof -
  let ?P = "\<lambda>j c. cache_dims rides B c \<and> rows_done rides B c (nat (i - 1))
                \<and> row_part rides c (nat i) j"
  have B31: "B < 2 ^ 31" using B(2) by simp
  have cols: "int_range 1 B = Some [1..B]" using B(2) by (intro int_range_Some) simp
  have "nat i < length c" using dims i by (simp add: cache_dims_def)
  then have z: "c ! nat i ! 0 = Num 0" using dims by (simp add: cache_dims_def)
  have oz: "opt_time rides (nat i) 0 = 0"
    using pos i by (intro opt_time_zero) simp_all
  have "row_part rides c (nat i) 0"
    unfolding row_part_def
  proof (intro allI impI)
    fix j' :: int assume "0 \<le> j' \<and> j' \<le> 0"
    then have "j' = 0" by simp
    then show "c ! nat i ! nat j' = Num (opt_time rides (nat i) j')"
      using z oz by simp
  qed
  with dims rows have start: "?P (1 - 1) c" by simp
  have "\<exists>c'. for_each [1..B] (\<lambda>j. dp_cell rides i j) c = Some c' \<and> ?P B c'"
  proof (rule for_each_upto[where P = ?P, OF _ start])
    show "1 \<le> B + 1" using B by simp
  next
    fix j s assume "1 \<le> j" "j \<le> B" "?P (j - 1) s"
    then show "\<exists>s'. dp_cell rides i j s = Some s' \<and> ?P j s'"
      using dp_cell_step[OF ex pos i _ _ B31, of j s] by blast
  qed
  then obtain c' where c': "for_each [1..B] (\<lambda>j. dp_cell rides i j) c = Some c'" "?P B c'"
    by blast
  have "rows_done rides B c' (nat i)"
    unfolding rows_done_def
  proof (intro allI impI)
    fix r j assume r: "r \<le> nat i" and j: "0 \<le> j \<and> j \<le> B"
    show "c' ! r ! nat j = Num (opt_time rides r j)"
    proof (cases "r = nat i")
      case True
      with c'(2) j show ?thesis by (simp add: row_part_def)
    next
      case False
      with r i have "r \<le> nat (i - 1)" by linarith
      with c'(2) j show ?thesis by (simp add: rows_done_def)
    qed
  qed
  with c' show ?thesis by (simp add: cols)
qed

lemma init_cache_ok:
  assumes len: "length rides < 2 ^ 31 - 1" and B: "0 \<le> B" "B \<le> 2 ^ 31 - 3"
  shows "\<exists>c. init_cache rides B = Some c \<and> cache_dims rides B c \<and> rows_done rides B c 0"
proof -
  define row where "row = map (\<lambda>j :: int. Num 0) [0..B + 1]"
  define c where "c = map (\<lambda>i :: int. row) [0..int (length rides)]"
  have n: "int_of_size (length rides) = int (length rides)"
    using len by (intro int_of_size_id) simp
  have rows: "int_range 0 (int (length rides)) = Some [0..int (length rides)]"
    using len by (intro int_range_Some) simp
  have ne: "[0..int (length rides)] \<noteq> []" by (simp add: upto_rec1)
  have w: "wrap_int (B + 1) = B + 1" using B by (intro wrap_int_id) simp_all
  have cols: "int_range 0 (B + 1) = Some [0..B + 1]" using B(2) by (intro int_range_Some) simp
  have init: "init_cache rides B = Some c"
    by (simp add: init_cache_def n rows ne w cols c_def row_def)
  have lc: "length c = length rides + 1" by (simp add: c_def)
  have lr: "length row = nat (B + 2)" using B by (simp add: row_def)
  have cr: "c ! r = row" if "r < length rides + 1" for r
    using that by (simp add: c_def)
  have rj: "row ! k = Num 0" if "k < nat (B + 2)" for k
    using that B by (simp add: row_def)
  have "cache_dims rides B c"
    unfolding cache_dims_def lc
  proof (intro conjI allI impI)
    fix r assume r: "r < length rides + 1"
    show "length (c ! r) = nat (B + 2)" by (simp only: cr[OF r] lr)
    show "c ! r ! 0 = Num 0" unfolding cr[OF r] using B by (intro rj) simp
  qed simp
  moreover have "rows_done rides B c 0"
    unfolding rows_done_def
  proof (intro allI impI)
    fix r j assume "r \<le> (0::nat)" and j: "0 \<le> j \<and> j \<le> B"
    then have r: "r = 0" by simp
    have "c ! 0 ! nat j = Num 0" unfolding cr[of 0, simplified] using j by (intro rj) simp
    then show "c ! r ! nat j = Num (opt_time rides r j)" by (simp add: r)
  qed
  ultimately show ?thesis using init by blast
qed

lemma fill_cache_ok:
  assumes ex: "sums_exactly rides" and pos: "\<forall>r \<in> set rides. 0 < cost r"
    and len: "length rides < 2 ^ 31 - 1" and B: "0 \<le> B" "B \<le> 2 ^ 31 - 3"
    and c0: "cache_dims rides B c0" "rows_done rides B c0 0"
  shows "\<exists>c. fill_cache rides B c0 = Some c
           \<and> cache_dims rides B c \<and> rows_done rides B c (length rides)"
proof -
  let ?P = "\<lambda>i c. cache_dims rides B c \<and> rows_done rides B c (nat i)"
  let ?body = "\<lambda>i c. do { columns \<leftarrow> int_range 1 B; for_each columns (\<lambda>j. dp_cell rides i j) c }"
  have n: "int_of_size (length rides) = int (length rides)"
    using len by (intro int_of_size_id) simp
  have rows: "int_range 1 (int (length rides)) = Some [1..int (length rides)]"
    using len by (intro int_range_Some) simp
  have start: "?P (1 - 1) c0" using c0 by simp
  have "\<exists>c. for_each [1..int (length rides)] ?body c0 = Some c \<and> ?P (int (length rides)) c"
  proof (rule for_each_upto[where P = ?P, OF _ start])
    show "1 \<le> int (length rides) + 1" by simp
  next
    fix i s assume "1 \<le> i" "i \<le> int (length rides)" "?P (i - 1) s"
    then show "\<exists>s'. ?body i s = Some s' \<and> ?P i s'"
      using dp_row[OF ex pos B, of i s] by blast
  qed
  then show ?thesis by (simp add: fill_cache_def n rows)
qed

lemma backtrack_ok:
  assumes pos: "\<forall>r \<in> set rides. 0 < cost r" and dims: "cache_dims rides B c" and rows: "rows_done rides B c (length rides)"
  shows "i \<le> length rides \<Longrightarrow> 0 \<le> t \<Longrightarrow> t \<le> B \<Longrightarrow>
     \<exists>sel. backtrack i rides c t res = Some (res @ sel)
        \<and> subseq (rev sel) (take i rides)
        \<and> sum_list (map cost sel) \<le> t
        \<and> sum_list (map time sel) = opt_time rides i t"
proof (induction i arbitrary: t res)
  case 0
  then show ?case by simp
next
  case (Suc i)
  have rd: "cache_at c (int r) t = Some (Num (opt_time rides r t))" if "r \<le> length rides" for r
  proof -
    have "r < length c" using that dims by (simp add: cache_dims_def)
    moreover from this have "length (c ! r) = nat (B + 2)"
      using dims by (simp add: cache_dims_def)
    moreover have "c ! r ! nat t = Num (opt_time rides r t)"
      using rows that Suc.prems by (simp add: rows_done_def)
    ultimately show ?thesis using Suc.prems by (simp add: cache_at_def)
  qed
  have a: "cache_at c (int (Suc i)) t = Some (Num (opt_time rides (Suc i) t))"
    using Suc.prems by (intro rd) simp
  have b: "cache_at c (int i) t = Some (Num (opt_time rides i t))"
    using Suc.prems by (intro rd) simp
  have tk: "take (Suc i) rides = take i rides @ [rides ! i]"
    using Suc.prems by (simp add: take_Suc_conv_app_nth)
  show ?case
  proof (cases "opt_time rides (Suc i) t = opt_time rides i t")
    case True
    from Suc.IH[of t res] Suc.prems obtain sel where
      sel: "backtrack i rides c t res = Some (res @ sel)" "subseq (rev sel) (take i rides)"
        "sum_list (map cost sel) \<le> t" "sum_list (map time sel) = opt_time rides i t"
      by auto
    have "backtrack (Suc i) rides c t res = Some (res @ sel)"
      using a b True sel(1) by (simp del: of_nat_Suc opt_time.simps)
    moreover have "subseq (rev sel) (take (Suc i) rides)"
      unfolding tk using sel(2) by (rule subseq_rev_drop_many)
    ultimately show ?thesis using sel(3,4) True by auto
  next
    case False
    define x where "x = rides ! i"
    from False have fits: "t - cost x \<ge> 0"
      and val: "opt_time rides (Suc i) t = time x + opt_time rides i (t - cost x)"
      by (auto simp: x_def max_def split: if_splits)
    have "x \<in> set rides" using Suc.prems by (simp add: x_def)
    with pos have "0 < cost x" by blast
    with Suc.prems have le: "t - cost x \<le> B" by simp
    from Suc.IH[of "t - cost x" "res @ [x]"] Suc.prems fits le obtain sel where
      sel: "backtrack i rides c (t - cost x) (res @ [x]) = Some ((res @ [x]) @ sel)"
        "subseq (rev sel) (take i rides)"
        "sum_list (map cost sel) \<le> t - cost x"
        "sum_list (map time sel) = opt_time rides i (t - cost x)"
      by auto
    have "backtrack (Suc i) rides c t res = Some (res @ (x # sel))"
      using a b False sel(1) by (simp add: x_def del: of_nat_Suc opt_time.simps)
    moreover have "subseq (rev (x # sel)) (take (Suc i) rides)"
      unfolding tk using sel(2) by (simp add: x_def)
    moreover have "sum_list (map cost (x # sel)) \<le> t" using sel(3) by simp
    moreover have "sum_list (map time (x # sel)) = opt_time rides (Suc i) t"
      using sel(4) val by simp
    ultimately show ?thesis by blast
  qed
qed

lemma opt_time_upper:
  assumes pos: "\<forall>r \<in> set rides. 0 < cost r"
  shows "i \<le> length rides \<Longrightarrow> subseq s (take i rides) \<Longrightarrow> sum_list (map cost s) \<le> j
    \<Longrightarrow> sum_list (map time s) \<le> opt_time rides i j"
proof (induction i arbitrary: s j)
  case 0
  then have "s = []" by simp
  then show ?case by simp
next
  case (Suc i)
  define x where "x = rides ! i"
  have tk: "take (Suc i) rides = take i rides @ [x]"
    using Suc.prems by (simp add: take_Suc_conv_app_nth x_def)
  from Suc.prems(2) obtain s1 s2 where s: "s = s1 @ s2" "subseq s1 (take i rides)" "subseq s2 [x]"
    unfolding tk by (rule subseq_appendE)
  have i: "i \<le> length rides" using Suc.prems by simp
  show ?case
  proof (cases "s2 = []")
    case True
    with s Suc.prems have "sum_list (map time s) \<le> opt_time rides i j"
      using Suc.IH[OF i, of s1 j] by simp
    also have "\<dots> \<le> opt_time rides (Suc i) j" by simp
    finally show ?thesis .
  next
    case False
    with s(3) have s2: "s2 = [x]"
      by (cases s2) (auto split: if_splits)
    have "set s1 \<subseteq> set rides"
      using subseq_set[OF s(2)] set_take_subset[of i rides] by blast
    with pos have "0 \<le> sum_list (map cost s1)" by (intro sum_cost_nonneg) blast
    moreover have c: "sum_list (map cost s1) \<le> j - cost x"
      using Suc.prems(3) by (simp add: s s2)
    ultimately have fits: "j - cost x \<ge> 0" by simp
    have "sum_list (map time s1) \<le> opt_time rides i (j - cost x)"
      using Suc.IH[OF i s(2) c] .
    then have "sum_list (map time s) \<le> time x + opt_time rides i (j - cost x)"
      by (simp add: s s2)
    also have "\<dots> \<le> opt_time rides (Suc i) j"
      using fits by (simp add: x_def)
    finally show ?thesis .
  qed
qed


lemma dynamic_max_time_optimal:
  assumes ex: "sums_exactly rides" and pos: "\<forall>r \<in> set rides. 0 < cost r"
    and len: "length rides < 2 ^ 31 - 1" and B: "0 \<le> B" "B \<le> 2 ^ 31 - 3"
  shows "\<exists>res. dynamic_max_time rides B = Some res
     \<and> subseq (rev res) rides
     \<and> sum_list (map cost res) \<le> B
     \<and> sum_ride_vector res = (sum_list (map cost res), Num (sum_list (map time res)))
     \<and> (\<forall>s. subseq s rides \<and> sum_list (map cost s) \<le> B
            \<longrightarrow> sum_list (map time s) \<le> sum_list (map time res))"
proof -
  from init_cache_ok[OF len B] obtain c0 where
    c0: "init_cache rides B = Some c0" "cache_dims rides B c0" "rows_done rides B c0 0"
    by blast
  from fill_cache_ok[OF ex pos len B c0(2,3)] obtain c where
    c: "fill_cache rides B c0 = Some c"
      "cache_dims rides B c" "rows_done rides B c (length rides)"
    by blast
  from backtrack_ok[OF pos c(2,3), of "length rides" B "[]"] B obtain res where
    res: "backtrack (length rides) rides c B [] = Some res"
      "subseq (rev res) rides" "sum_list (map cost res) \<le> B"
      "sum_list (map time res) = opt_time rides (length rides) B"
    by auto
  have n: "int_of_size (length rides) = int (length rides)"
    using len by (intro int_of_size_id) simp
  have "dynamic_max_time rides B = Some res"
    using c0(1) c(1) res(1) by (simp add: dynamic_max_time_def n)
  moreover have "sum_list (map time s) \<le> sum_list (map time res)"
    if "subseq s rides" "sum_list (map cost s) \<le> B" for s
    using opt_time_upper[OF pos, of "length rides" s B] that res(4) by simp
  moreover note sums_exactly_rev[OF ex res(2)]
  ultimately show ?thesis
    using res(2,3) by blast
qed

text \<open>
  The bounds on the budget: for \<open>total_cost = INT_MAX - 1\<close> the test
  \<open>j <= total_cost + 1\<close> of the loop that builds the table never fails and \<open>j++\<close>
  overflows; for a negative budget the walk back reads the table at a negative
  column.
\<close>

lemma dynamic_max_time_budget_overflow:
  assumes "length rides < 2 ^ 31"
  shows "dynamic_max_time rides (2 ^ 31 - 2) = None"
proof -
  have n: "int_of_size (length rides) = int (length rides)"
    using assms by (rule int_of_size_id)
  have "wrap_int (2 ^ 31 - 2 + 1) = 2 ^ 31 - 2 + 1" by (rule wrap_int_id) simp_all
  then have "init_cache rides (2 ^ 31 - 2) = None"
    by (simp add: init_cache_def int_range_def n)
  then show ?thesis by (simp add: dynamic_max_time_def)
qed

lemma dynamic_max_time_negative_budget:
  "dynamic_max_time [\<lparr>description = ''A'', cost = 1, time = 1\<rparr>] (- 1) = None"
  by (simp add: dynamic_max_time_run)







section \<open>Properties of exhaustive_max_time\<close>

lemma size_t_to_double_exact: "b < 2 ^ 53 \<Longrightarrow> size_t_to_double b = b"
  by (simp add: size_t_to_double_def)

lemma shifted_bit_test: "(drop_bit j (w :: 64 word) AND 1 = 1) \<longleftrightarrow> bit w j"
  by (simp add: and_one_eq bit_iff_odd_drop_bit odd_iff_mod_2_eq_one)

lemma candidate_of_selection:
  assumes "length rides \<le> 64"
  shows "candidate_of rides (length rides) (of_nat k) = selection rides k"
proof -
  have "filter (\<lambda>j. (drop_bit j (of_nat k :: 64 word)) AND 1 = 1) [0..<length rides]
      = filter (\<lambda>j. bit k j) [0..<length rides]"
  proof (rule filter_cong[OF refl])
    fix j assume "j \<in> set [0..<length rides]"
    with assms have "j < 64" by simp
    then show "(drop_bit j (of_nat k :: 64 word) AND 1 = 1) = bit k j"
      by (simp add: shifted_bit_test bit_of_nat_iff)
  qed
  then show ?thesis by (simp add: candidate_of_def selection_def)
qed

lemma selection_Cons:
  "selection (x # xs) k = (if odd k then [x] else []) @ selection xs (k div 2)"
proof -
  have "[0..<length (x # xs)] = 0 # map Suc [0..<length xs]"
    by (simp add: upt_conv_Cons map_Suc_upt del: upt_Suc)
  then show ?thesis
    by (simp add: selection_def filter_map o_def bit_Suc bit_0 del: upt_Suc)
qed

lemma selection_Nil [simp]: "selection [] k = []"
  by (simp add: selection_def)

lemma selection_subseq: "subseq (selection rides k) rides"
  by (induction rides arbitrary: k) (auto simp: selection_Cons)

lemma selection_zero: "selection rides 0 = []"
  by (simp add: selection_def)

lemma selection_top: "selection rides (2 ^ length rides) = []"
  by (induction rides) (auto simp: selection_Cons)

lemma selection_nonempty:
  "0 < k \<Longrightarrow> k < 2 ^ length rides \<Longrightarrow> selection rides k \<noteq> []"
proof (induction rides arbitrary: k)
  case Nil
  then show ?case by simp
next
  case (Cons x xs)
  show ?case
  proof (cases "odd k")
    case True
    then show ?thesis by (simp add: selection_Cons)
  next
    case False
    with Cons.prems have "0 < k div 2" "k div 2 < 2 ^ length xs" by auto
    then have "selection xs (k div 2) \<noteq> []" by (rule Cons.IH)
    then show ?thesis by (simp add: selection_Cons)
  qed
qed

lemma selection_cover:
  "subseq s rides \<Longrightarrow> \<exists>k < 2 ^ length rides. selection rides k = s"
proof (induction rides arbitrary: s)
  case Nil
  then have "s = []" by simp
  then show ?case by simp
next
  case (Cons x xs)
  show ?case
  proof (cases s)
    case Nil
    then show ?thesis by (intro exI[of _ 0]) (simp add: selection_zero)
  next
    case (Cons a s')
    show ?thesis
    proof (cases "a = x")
      case True
      with Cons Cons.prems have "subseq s' xs" by simp
      then obtain k where k: "k < 2 ^ length xs" "selection xs k = s'"
        using Cons.IH by blast
      then have "2 * k + 1 < 2 ^ length (x # xs)" "selection (x # xs) (2 * k + 1) = x # s'"
        by (simp_all add: selection_Cons)
      with Cons True show ?thesis by blast
    next
      case False
      with Cons Cons.prems have "subseq s xs" by simp
      then obtain k where k: "k < 2 ^ length xs" "selection xs k = s"
        using Cons.IH by blast
      then have "2 * k < 2 ^ length (x # xs)" "selection (x # xs) (2 * k) = s"
        by (simp_all add: selection_Cons)
      then show ?thesis by blast
    qed
  qed
qed

lemma exhaustive_loop_unroll:
  assumes n: "n \<le> 52"
  shows "k \<le> 2 ^ n + 1 \<Longrightarrow>
    exhaustive_loop rides n B (of_nat k) st =
      Some (foldl (\<lambda>st bits. (exhaustive_step rides n B bits (fst st), snd st @ [bits]))
              st (map of_nat [k..<2 ^ n + 1]))"
proof (induction "2 ^ n + 1 - k" arbitrary: k st)
  case 0
  have "(2::nat) ^ n \<le> 2 ^ 52" using n by (rule power_increasing) simp
  then have small: "k < 2 ^ 53" "k < 2 ^ 64" using "0.prems" by simp_all
  from 0 have k: "k = 2 ^ n + 1" by simp
  have "unat (of_nat k :: 64 word) = k"
    using small(2) by (simp add: unsigned_of_nat take_bit_nat_eq_self)
  then have "size_t_to_double (unat (of_nat k :: 64 word)) = k"
    using small(1) by (simp add: size_t_to_double_exact)
  then have "\<not> size_t_to_double (unat (of_nat k :: 64 word)) \<le> 2 ^ n"
    using k by simp
  then show ?case
    by (subst exhaustive_loop.simps) (simp add: k)
next
  case (Suc d)
  have "(2::nat) ^ n \<le> 2 ^ 52" using n by (rule power_increasing) simp
  then have small: "k < 2 ^ 53" "k < 2 ^ 64" using Suc.prems by simp_all
  from Suc have k: "k \<le> 2 ^ n" by simp
  have "unat (of_nat k :: 64 word) = k"
    using small(2) by (simp add: unsigned_of_nat take_bit_nat_eq_self)
  then have "size_t_to_double (unat (of_nat k :: 64 word)) = k"
    using small(1) by (simp add: size_t_to_double_exact)
  then have cond: "size_t_to_double (unat (of_nat k :: 64 word)) \<le> 2 ^ n"
    using k by simp
  have next_k: "(of_nat k :: 64 word) + 1 = of_nat (Suc k)" by simp
  have d: "d = 2 ^ n + 1 - Suc k" using Suc.hyps(2) by simp
  have "Suc k \<le> 2 ^ n + 1" using k by simp
  note IH = Suc.hyps(1)[OF d this]
  have lst: "[k..<2 ^ n + 1] = k # [Suc k..<2 ^ n + 1]"
    using k by (simp add: upt_conv_Cons del: upt_Suc)
  show ?case
    by (subst exhaustive_loop.simps) (simp only: cond if_True next_k IH lst list.map foldl_Cons)
qed

lemma foldl_trace:
  "foldl (\<lambda>st x. (f x (fst st), snd st @ [g x])) (b, tr) xs
     = (foldl (\<lambda>b x. f x b) b xs, tr @ map g xs)"
  by (induction xs arbitrary: b tr) simp_all

lemma best_after_foldl:
  "foldl (\<lambda>b k. exhaustive_step rides (length rides) B (of_nat k) b) [] [0..<m]
     = best_after rides B m"
  by (induction m) simp_all

lemma exhaustive_run_eq:
  assumes "length rides \<le> 52"
  shows "exhaustive_run rides B =
     Some (best_after rides B (2 ^ length rides + 1), map of_nat [0..<2 ^ length rides + 1])"
proof -
  have "exhaustive_run rides B = exhaustive_loop rides (length rides) B (of_nat 0) ([], [])"
    using assms by (simp add: exhaustive_run_small)
  also have "\<dots> = Some (foldl (\<lambda>st bits. (exhaustive_step rides (length rides) B bits (fst st), snd st @ [bits]))
              ([], []) (map of_nat [0..<2 ^ length rides + 1]))"
    by (rule exhaustive_loop_unroll[OF assms]) simp
  also have "foldl (\<lambda>st bits. (exhaustive_step rides (length rides) B bits (fst st), snd st @ [bits]))
              ([], []) (map of_nat [0..<2 ^ length rides + 1])
     = foldl (\<lambda>st k. (exhaustive_step rides (length rides) B (of_nat k) (fst st), snd st @ [of_nat k]))
              ([], []) [0..<2 ^ length rides + 1]"
    by (simp add: foldl_map)
  also have "\<dots> = (best_after rides B (2 ^ length rides + 1), map of_nat [0..<2 ^ length rides + 1])"
    using foldl_trace[of "\<lambda>k b. exhaustive_step rides (length rides) B (of_nat k) b"
        "of_nat :: nat \<Rightarrow> 64 word" "[]" "[]" "[0..<2 ^ length rides + 1]"]
    by (simp only: best_after_foldl append_Nil)
  finally show ?thesis .
qed


lemma exhaustive_step_cases:
  "exhaustive_step rides n B bits best = candidate_of rides n bits
     \<or> exhaustive_step rides n B bits best = best"
  by (simp add: exhaustive_step_def Let_def split: prod.splits)

lemma best_after_subseq:
  assumes "length rides \<le> 64"
  shows "subseq (best_after rides B m) rides"
proof (induction m)
  case 0
  show ?case by simp
next
  case (Suc m)
  from exhaustive_step_cases[of rides "length rides" B "of_nat m" "best_after rides B m"]
  show ?case
    using Suc by (auto simp: candidate_of_selection[OF assms] selection_subseq)
qed

lemma exhaustive_step_selection:
  assumes "length rides \<le> 64" and ex: "sums_exactly rides" and b: "subseq b rides"
  shows "exhaustive_step rides (length rides) B (of_nat k) b =
     (if real_of_int (sum_list (map cost (selection rides k))) \<le> B
         \<and> (b = [] \<or> sum_list (map time b) < sum_list (map time (selection rides k)))
      then selection rides k else b)"
proof -
  have "sum_ride_vector (selection rides k)
      = (sum_list (map cost (selection rides k)), Num (sum_list (map time (selection rides k))))"
    using ex selection_subseq[of rides k] by (simp add: sums_exactly_def)
  moreover have "sum_ride_vector b = (sum_list (map cost b), Num (sum_list (map time b)))"
    using ex b by (simp add: sums_exactly_def)
  ultimately show ?thesis
    by (auto simp: exhaustive_step_def Let_def candidate_of_selection[OF assms(1)])
qed

lemma best_after_Suc:
  assumes "length rides \<le> 64" and "sums_exactly rides"
  shows "best_after rides B (Suc m) =
     (if real_of_int (sum_list (map cost (selection rides m))) \<le> B
         \<and> (best_after rides B m = []
              \<or> sum_list (map time (best_after rides B m)) < sum_list (map time (selection rides m)))
      then selection rides m else best_after rides B m)"
  by (simp only: best_after.simps
      exhaustive_step_selection[OF assms best_after_subseq[OF assms(1)]])

lemma best_after_member:
  assumes len: "length rides \<le> 64" and ex: "sums_exactly rides"
  shows "best_after rides B m = []
     \<or> (\<exists>k < m. best_after rides B m = selection rides k
            \<and> real_of_int (sum_list (map cost (selection rides k))) \<le> B)"
proof (induction m)
  case 0
  show ?case by simp
next
  case (Suc m)
  show ?case
  proof (cases "best_after rides B (Suc m) = best_after rides B m")
    case True
    with Suc show ?thesis by (auto intro: less_SucI)
  next
    case False
    then have "best_after rides B (Suc m) = selection rides m
       \<and> real_of_int (sum_list (map cost (selection rides m))) \<le> B"
      by (simp add: best_after_Suc[OF len ex] del: best_after.simps split: if_splits)
    then show ?thesis by blast
  qed
qed

lemma best_after_bounds:
  assumes len: "length rides \<le> 64" and ex: "sums_exactly rides"
  shows "m \<le> 2 ^ length rides \<Longrightarrow> k < m
    \<Longrightarrow> real_of_int (sum_list (map cost (selection rides k))) \<le> B
    \<Longrightarrow> selection rides k = []
       \<or> (best_after rides B m \<noteq> []
           \<and> sum_list (map time (selection rides k)) \<le> sum_list (map time (best_after rides B m)))"
proof (induction m arbitrary: k)
  case 0
  then show ?case by simp
next
  case (Suc m)
  let ?b = "best_after rides B m" and ?c = "selection rides m"
  have step: "best_after rides B (Suc m) =
     (if real_of_int (sum_list (map cost ?c)) \<le> B
         \<and> (?b = [] \<or> sum_list (map time ?b) < sum_list (map time ?c))
      then ?c else ?b)"
    by (rule best_after_Suc[OF len ex])
  show ?case
  proof (cases "m = 0")
    case True
    with Suc.prems have "k = 0" by simp
    then show ?thesis by (simp add: selection_zero)
  next
    case False
    with Suc.prems have c_ne: "?c \<noteq> []" by (intro selection_nonempty) simp_all
    show ?thesis
    proof (cases "k = m")
      case True
      with Suc.prems(3) c_ne show ?thesis unfolding step by auto
    next
      case False
      with Suc.prems have "k < m" "m \<le> 2 ^ length rides" by simp_all
      from Suc.IH[OF this(2,1) Suc.prems(3)] c_ne show ?thesis unfolding step by auto
    qed
  qed
qed


lemma exhaustive_result_max:
  assumes len: "length rides \<le> 64" and ex: "sums_exactly rides" and B: "0 \<le> B"
    and s: "subseq s rides" "real_of_int (sum_list (map cost s)) \<le> B"
  shows "sum_list (map time s) \<le> sum_list (map time (best_after rides B (2 ^ length rides + 1)))"
proof -
  let ?n = "length rides"
  let ?b = "best_after rides B (2 ^ ?n)"
  have step: "best_after rides B (2 ^ ?n + 1) =
     (if ?b = [] \<or> sum_list (map time ?b) < 0 then [] else ?b)"
    using B best_after_Suc[OF len ex, of B "2 ^ ?n"] by (simp add: selection_top del: best_after.simps)
  from selection_cover[OF s(1)] obtain k where k: "k < 2 ^ ?n" "selection rides k = s"
    by blast
  from best_after_bounds[OF len ex order_refl k(1), of B] s(2) k(2)
  have "s = [] \<or> (?b \<noteq> [] \<and> sum_list (map time s) \<le> sum_list (map time ?b))"
    by simp
  then show ?thesis unfolding step by auto
qed

lemma exhaustive_result_feasible:
  assumes len: "length rides \<le> 64" and ex: "sums_exactly rides" and B: "0 \<le> B"
  shows "subseq (best_after rides B m) rides
     \<and> real_of_int (sum_list (map cost (best_after rides B m))) \<le> B"
  using best_after_member[OF len ex, of B m] B by (auto simp: selection_subseq)



lemma exhaustive_max_time_eq:
  "length rides \<le> 52 \<Longrightarrow>
   exhaustive_max_time rides B = Some (best_after rides B (2 ^ length rides + 1))"
  by (simp add: exhaustive_max_time_def exhaustive_run_eq del: best_after.simps)

lemma exhaustive_max_time_correct:
  assumes len: "length rides \<le> 52" and ex: "sums_exactly rides" and B: "0 \<le> B"
  shows "\<exists>best. exhaustive_max_time rides B = Some best
     \<and> subseq best rides
     \<and> real_of_int (sum_list (map cost best)) \<le> B
     \<and> (\<forall>s. subseq s rides \<and> real_of_int (sum_list (map cost s)) \<le> B
            \<longrightarrow> sum_list (map time s) \<le> sum_list (map time best))"
proof -
  from len have len64: "length rides \<le> 64" by simp
  show ?thesis
    using exhaustive_max_time_eq[OF len, of B]
      exhaustive_result_feasible[OF len64 ex B, of "2 ^ length rides + 1"]
      exhaustive_result_max[OF len64 ex B]
    by (simp del: best_after.simps)
qed

text \<open>
  From 53 to 63 items the loop test is no longer exact, since \<open>bits\<close> is rounded to
  53 significant bits: the loop runs on beyond \<open>2 ^ N\<close>, up to the first \<open>bits\<close>
  whose double exceeds \<open>2 ^ N\<close>, and the patterns beyond \<open>2 ^ N\<close> select again
  subsets examined before. When no time is negative this does not change the time of
  the result.
\<close>

lemma size_t_to_double_below:
  assumes "b \<le> 2 ^ n"
  shows "size_t_to_double b \<le> 2 ^ n"
proof (cases "b < 2 ^ 53")
  case True
  with assms show ?thesis by (simp add: size_t_to_double_def)
next
  case False
  define e where "e = bit_length b - 53"
  define q where "q = b div 2 ^ e"
  define r where "r = b mod 2 ^ e"
  from False have L: "53 < bit_length b" by (intro bit_length_gt) simp
  then have e: "bit_length b = 53 + e" "0 < e" by (simp_all add: e_def)
  have down: "q * 2 ^ e \<le> b" unfolding q_def by simp
  show ?thesis
  proof (cases "b = 2 ^ n")
    case True
    have "b < 2 ^ Suc n" unfolding True by simp
    then have "bit_length b \<le> Suc n" by (rule bit_length_le)
    with e have "e \<le> n" by simp
    then have "(2::nat) ^ e dvd 2 ^ n" by (rule le_imp_power_dvd)
    then have "r = 0" unfolding r_def True by simp
    moreover have "(0::nat) < 2 ^ (e - 1)" by simp
    ultimately have "r < 2 ^ (e - 1)" by simp
    with False down assms show ?thesis
      by (simp add: size_t_to_double_def Let_def e_def[symmetric] q_def[symmetric] r_def[symmetric])
  next
    case ne: False
    with assms have "b < 2 ^ n" by simp
    then have Ln: "bit_length b \<le> n" by (rule bit_length_le)
    have "b < 2 ^ 53 * 2 ^ e"
      using bit_length_upper[of b] by (simp add: e(1) power_add)
    then have "q < 2 ^ 53" unfolding q_def by (simp add: less_mult_imp_div_less)
    then have "q + 1 \<le> 2 ^ 53" by simp
    then have "(q + 1) * 2 ^ e \<le> 2 ^ 53 * 2 ^ e" by (rule mult_le_mono1)
    also have "\<dots> = 2 ^ (53 + e)" by (simp add: power_add)
    also have "\<dots> \<le> 2 ^ n" using Ln e(1) by (intro power_increasing) simp_all
    finally have up: "(q + 1) * 2 ^ e \<le> 2 ^ n" .
    have "q * 2 ^ e \<le> (q + 1) * 2 ^ e" by simp
    from this up have down': "q * 2 ^ e \<le> 2 ^ n" by (rule order_trans)
    from False up down' show ?thesis
      by (simp add: size_t_to_double_def Let_def e_def[symmetric] q_def[symmetric])
  qed
qed


lemma exhaustive_loop_stops:
  assumes m: "m < 2 ^ 64" and below: "\<forall>j < m. size_t_to_double j \<le> 2 ^ n"
    and stop: "\<not> size_t_to_double m \<le> 2 ^ n"
  shows "k \<le> m \<Longrightarrow>
    exhaustive_loop rides n B (of_nat k) st =
      Some (foldl (\<lambda>st bits. (exhaustive_step rides n B bits (fst st), snd st @ [bits]))
              st (map of_nat [k..<m]))"
proof (induction "m - k" arbitrary: k st)
  case 0
  then have k: "k = m" by simp
  have "unat (of_nat k :: 64 word) = k"
    using m k by (simp add: unsigned_of_nat take_bit_nat_eq_self)
  then have "\<not> size_t_to_double (unat (of_nat k :: 64 word)) \<le> 2 ^ n"
    using k stop by simp
  then show ?case
    by (subst exhaustive_loop.simps) (simp add: k)
next
  case (Suc d)
  from Suc have k: "k < m" by simp
  with m have "k < 2 ^ 64" by simp
  then have "unat (of_nat k :: 64 word) = k"
    by (simp add: unsigned_of_nat take_bit_nat_eq_self)
  then have cond: "size_t_to_double (unat (of_nat k :: 64 word)) \<le> 2 ^ n"
    using k below by simp
  have next_k: "(of_nat k :: 64 word) + 1 = of_nat (Suc k)" by simp
  have d: "d = m - Suc k" using Suc.hyps(2) by simp
  have "Suc k \<le> m" using k by simp
  note IH = Suc.hyps(1)[OF d this]
  have lst: "[k..<m] = k # [Suc k..<m]"
    using k by (simp add: upt_conv_Cons del: upt_Suc)
  show ?case
    by (subst exhaustive_loop.simps) (simp only: cond if_True next_k IH lst list.map foldl_Cons)
qed

lemma exhaustive_run_stops:
  assumes len: "length rides \<le> 64"
    and m: "m < 2 ^ 64" and below: "\<forall>j < m. size_t_to_double j \<le> 2 ^ length rides"
    and stop: "\<not> size_t_to_double m \<le> 2 ^ length rides"
  shows "exhaustive_run rides B = Some (best_after rides B m, map of_nat [0..<m])"
proof -
  have "exhaustive_run rides B = exhaustive_loop rides (length rides) B (of_nat 0) ([], [])"
    using len by (simp add: exhaustive_run_small)
  also have "\<dots> = Some (foldl (\<lambda>st bits. (exhaustive_step rides (length rides) B bits (fst st), snd st @ [bits]))
              ([], []) (map of_nat [0..<m]))"
    by (rule exhaustive_loop_stops[OF m below stop]) simp
  also have "foldl (\<lambda>st bits. (exhaustive_step rides (length rides) B bits (fst st), snd st @ [bits]))
              ([], []) (map of_nat [0..<m])
     = foldl (\<lambda>st k. (exhaustive_step rides (length rides) B (of_nat k) (fst st), snd st @ [of_nat k]))
              ([], []) [0..<m]"
    by (simp add: foldl_map)
  also have "\<dots> = (best_after rides B m, map of_nat [0..<m])"
    using foldl_trace[of "\<lambda>k b. exhaustive_step rides (length rides) B (of_nat k) b"
        "of_nat :: nat \<Rightarrow> 64 word" "[]" "[]" "[0..<m]"]
    by (simp only: best_after_foldl append_Nil)
  finally show ?thesis .
qed


lemma selection_mod:
  "selection rides (k mod 2 ^ length rides) = selection rides k"
proof (induction rides arbitrary: k)
  case Nil
  show ?case by simp
next
  case (Cons x xs)
  have "(k mod 2 ^ length (x # xs)) div 2 = (k div 2) mod 2 ^ length xs"
    by (simp add: mod_mult2_eq)
  moreover have "odd (k mod 2 ^ length (x # xs)) = odd k"
    by (simp add: mod2_eq_if mod_mult2_eq)
  ultimately show ?case by (simp add: selection_Cons Cons.IH)
qed








text \<open>
  With 64 items or more (and fewer than \<open>2 ^ 31\<close>) the call does not return: the
  converted \<open>bits\<close> never exceeds \<open>2 ^ 64\<close>.
\<close>

lemma size_t_to_double_le:
  assumes "b < 2 ^ 64"
  shows "size_t_to_double b \<le> 2 ^ 64"
proof (cases "b < 2 ^ 53")
  case True
  with assms show ?thesis by (simp add: size_t_to_double_def)
next
  case False
  define e where "e = bit_length b - 53"
  define q where "q = b div 2 ^ e"
  from False have "53 < bit_length b" by (intro bit_length_gt) simp
  moreover from assms have "bit_length b \<le> 64" by (rule bit_length_le)
  ultimately have e: "bit_length b = 53 + e" "e \<le> 11" by (simp_all add: e_def)
  have "b < 2 ^ 53 * 2 ^ e"
    using bit_length_upper[of b] by (simp add: e(1) power_add)
  then have "q < 2 ^ 53" unfolding q_def by (simp add: less_mult_imp_div_less)
  then have "q + 1 \<le> 2 ^ 53" by simp
  then have "(q + 1) * 2 ^ e \<le> 2 ^ 53 * 2 ^ e" by (rule mult_le_mono1)
  also have "\<dots> = 2 ^ (53 + e)" by (simp add: power_add)
  also have "\<dots> \<le> 2 ^ 64" using e(2) by (intro power_increasing) simp_all
  finally have up: "(q + 1) * 2 ^ e \<le> 2 ^ 64" .
  have "q * 2 ^ e \<le> (q + 1) * 2 ^ e" by simp
  from this up have down: "q * 2 ^ e \<le> 2 ^ 64" by (rule order_trans)
  from False up down show ?thesis
    by (simp add: size_t_to_double_def Let_def e_def[symmetric] q_def[symmetric])
qed

lemma exhaustive_loop_64:
  "exhaustive_loop rides 64 B bits st = None"
proof (rule ccontr)
  assume "exhaustive_loop rides 64 B bits st \<noteq> None"
  then obtain r where r: "exhaustive_loop rides 64 B bits st = Some r" by blast
  have "n \<noteq> 64" if "exhaustive_loop rides n B bits st = Some r" for rides n B bits st r
    using that
  proof (rule exhaustive_loop.raw_induct[where P = "\<lambda>rides n B bits st r. n \<noteq> 64", rotated])
    fix loop :: "RideVector \<Rightarrow> nat \<Rightarrow> real \<Rightarrow> 64 word \<Rightarrow> RideVector \<times> 64 word list
        \<Rightarrow> (RideVector \<times> 64 word list) option"
    fix rides n B bits st r
    assume IH: "\<And>rides n B bits st y. loop rides n B bits st = Some y \<Longrightarrow> n \<noteq> 64"
      and eq: "(if size_t_to_double (unat bits) \<le> 2 ^ n
          then loop rides n B (bits + 1) (exhaustive_step rides n B bits (fst st), snd st @ [bits])
          else Some st) = Some r"
    show "n \<noteq> 64"
    proof
      assume n: "n = 64"
      have "unat bits < 2 ^ 64" using unsigned_less[of bits] by simp
      then have "size_t_to_double (unat bits) \<le> 2 ^ 64" by (rule size_t_to_double_le)
      with eq n have "loop rides 64 B (bits + 1)
          (exhaustive_step rides 64 B bits (fst st), snd st @ [bits]) = Some r"
        by simp
      from IH[OF this] show False by simp
    qed
  qed
  from this[OF r] show False by simp
qed

lemma exhaustive_max_time_diverges:
  assumes "64 \<le> length rides" and "length rides < 2 ^ 31"
  shows "exhaustive_max_time rides B = None"
proof -
  have "int_of_size (length rides) = int (length rides)"
    using assms(2) by (rule int_of_size_id)
  then show ?thesis
    using assms(1) exhaustive_loop_64[of rides B 0 "([], [])"]
    by (simp add: exhaustive_max_time_def exhaustive_run_def)
qed

text \<open>
  With 53 items the bit pattern \<open>2 ^ 53 + 1\<close> converts to the double \<open>2 ^ 53\<close> and
  passes the test too. And with a negative budget the empty subset that is returned is
  not within the budget.
\<close>

lemma exhaustive_loop_test_inexact:
  "size_t_to_double (unat (2 ^ 53 + 1 :: 64 word)) \<le> 2 ^ 53"
proof -
  have "bit_length 9007199254740993 = 54" by (simp add: bit_length.simps)
  then show ?thesis by (simp add: size_t_to_double_def)
qed

lemma exhaustive_max_time_negative_budget:
  "exhaustive_max_time [] (- 1) = Some []"
  by (simp add: exhaustive_max_time_run)

text \<open>
  With 53 items of time \<open>-1\<close> and cost 1 and the budget 1, the pattern \<open>2 ^ 53\<close>
  brings back the empty subset, of time 0, and the pattern \<open>2 ^ 53 + 1\<close> then
  replaces it by the first item, of time \<open>-1\<close>: the result is not maximal.
\<close>

lemma sum_time_replicate:
  "\<forall>x \<in> set s. time x = t \<Longrightarrow> sum_list (map time s) = real (length s) * t"
  by (induction s) (simp_all add: algebra_simps)

lemma exhaustive_max_time_53_negative:
  "exhaustive_max_time (replicate 53 \<lparr>description = ''r'', cost = 1, time = - 1\<rparr>) 1
     = Some [\<lparr>description = ''r'', cost = 1, time = - 1\<rparr>]
   \<and> sum_list (map time [\<lparr>description = ''r'', cost = 1, time = - 1\<rparr>])
     < sum_list (map time ([] :: RideVector))"
proof -
  define r where "r = \<lparr>description = ''r'', cost = 1, time = - 1\<rparr>"
  define rides where "rides = replicate 53 r"
  have n: "length rides = 53" by (simp add: rides_def)
  then have len: "length rides \<le> 64" by simp
  have ex: "sums_exactly rides"
    by (rule whole_sums_exactly) (simp_all add: rides_def r_def sum_list_replicate)
  have rides_Cons: "rides = r # replicate 52 r"
    by (simp add: rides_def eval_nat_numeral)
  have T: "sum_list (map time s) \<le> - 1" if "subseq s rides" "s \<noteq> []" for s
  proof -
    from that(1) have "set s \<subseteq> set rides" by (rule subseq_set)
    then have "\<forall>x \<in> set s. time x = - 1" by (auto simp: rides_def r_def)
    then have "sum_list (map time s) = real (length s) * (- 1)" by (rule sum_time_replicate)
    moreover from that(2) have "1 \<le> real (length s)" by (cases s) simp_all
    ultimately show ?thesis by simp
  qed
  have sel1: "selection rides 1 = [r]"
    by (simp add: rides_Cons selection_Cons selection_zero)
  have b1: "best_after rides 1 (Suc 0) = []"
    using best_after_Suc[OF len ex, of 1 0] by (simp add: selection_zero del: best_after.simps(2))
  have b2: "best_after rides 1 (Suc (Suc 0)) = [r]"
    using best_after_Suc[OF len ex, of 1 "Suc 0"] b1 sel1
    by (simp add: r_def del: best_after.simps(2))
  have low: "best_after rides 1 (Suc (Suc d)) = [r]" if "Suc d < 2 ^ 53" for d
    using that
  proof (induction d)
    case 0
    show ?case by (rule b2)
  next
    case (Suc d)
    then have IH: "best_after rides 1 (Suc (Suc d)) = [r]" by simp
    have "selection rides (Suc (Suc d)) \<noteq> []"
      using Suc.prems by (intro selection_nonempty) (simp_all add: n)
    from T[OF selection_subseq this]
    have "\<not> sum_list (map time [r]) < sum_list (map time (selection rides (Suc (Suc d))))"
      by (simp add: r_def)
    then show ?case
      using best_after_Suc[OF len ex, of 1 "Suc (Suc d)"] IH
      by (simp del: best_after.simps(2))
  qed
  have "(2::nat) ^ 53 = Suc (Suc (2 ^ 53 - 2))" by simp
  moreover have "best_after rides 1 (Suc (Suc (2 ^ 53 - 2))) = [r]"
    by (rule low) simp
  ultimately have top: "best_after rides 1 (2 ^ 53) = [r]" by simp
  have "selection rides (2 ^ 53) = []"
    using selection_top[of rides] by (simp add: n)
  then have top1: "best_after rides 1 (Suc (2 ^ 53)) = []"
    using best_after_Suc[OF len ex, of 1 "2 ^ 53"] top
    by (simp add: r_def del: best_after.simps(2))
  have "selection rides (Suc (2 ^ 53)) = selection rides (Suc (2 ^ 53) mod 2 ^ length rides)"
    by (simp only: selection_mod)
  also have "Suc (2 ^ 53) mod 2 ^ length rides = 1" by (simp add: n)
  finally have "selection rides (Suc (2 ^ 53)) = [r]" by (simp only: sel1)
  then have top2: "best_after rides 1 (Suc (Suc (2 ^ 53))) = [r]"
    using best_after_Suc[OF len ex, of 1 "Suc (2 ^ 53)"] top1
    by (simp add: r_def del: best_after.simps(2))
  have below: "\<forall>j < Suc (Suc (2 ^ 53)). size_t_to_double j \<le> 2 ^ length rides"
  proof (intro allI impI)
    fix j :: nat assume "j < Suc (Suc (2 ^ 53))"
    then consider "j \<le> 2 ^ 53" | "j = 2 ^ 53 + 1" by fastforce
    then show "size_t_to_double j \<le> 2 ^ length rides"
    proof cases
      case 1
      then show ?thesis unfolding n by (rule size_t_to_double_below)
    next
      case 2
      have "bit_length 9007199254740993 = 54" by (simp add: bit_length.simps)
      then show ?thesis unfolding n 2 by (simp add: size_t_to_double_def)
    qed
  qed
  have stop: "\<not> size_t_to_double (Suc (Suc (2 ^ 53))) \<le> 2 ^ length rides"
  proof -
    have "bit_length 9007199254740994 = 54" by (simp add: bit_length.simps)
    then show ?thesis unfolding n by (simp add: size_t_to_double_def)
  qed
  have "Suc (Suc (2 ^ 53)) < (2::nat) ^ 64" by simp
  from exhaustive_run_stops[OF len this below stop, of 1]
  have "exhaustive_max_time rides 1 = Some [r]"
    by (simp only: exhaustive_max_time_def top2 option.map fst_conv)
  then show ?thesis unfolding rides_def r_def by simp
qed




text \<open>
  C4, on the code: for at most 52 items the loop examines the bit patterns 0 to
  \<open>2 ^ N\<close> inclusive, one more than the \<open>2 ^ N\<close> subsets, and the last pattern
  \<open>2 ^ N\<close> gives the same candidate as the pattern 0, the empty subset.
\<close>

theorem exhaustive_examined_patterns:
  assumes "length rides \<le> 52"
  shows "exhaustive_examined rides total_cost = Some (map of_nat [0..<2 ^ length rides + 1])
     \<and> candidate_of rides (length rides) (of_nat (2 ^ length rides))
         = candidate_of rides (length rides) (of_nat 0)"
proof -
  from assms have "length rides \<le> 64" by simp
  then show ?thesis
    by (simp only: exhaustive_examined_def exhaustive_run_eq[OF assms] option.map snd_conv
        candidate_of_selection selection_top selection_zero)
qed

theorem exhaustive_examined_patterns_witness:
  "exhaustive_examined [\<lparr>description = ''A'', cost = 2, time = 3\<rparr>, \<lparr>description = ''B'', cost = 3, time = 4\<rparr>] 5 = Some [0, 1, 2, 3, 4]
   \<and> candidate_of [\<lparr>description = ''A'', cost = 2, time = 3\<rparr>, \<lparr>description = ''B'', cost = 3, time = 4\<rparr>] 2 4 = candidate_of [\<lparr>description = ''A'', cost = 2, time = 3\<rparr>, \<lparr>description = ''B'', cost = 3, time = 4\<rparr>] 2 0"
proof -
  have "length [\<lparr>description = ''A'', cost = 2, time = 3\<rparr>, \<lparr>description = ''B'', cost = 3, time = 4\<rparr>] \<le> 52"
    by simp
  from exhaustive_examined_patterns[OF this, of 5] show ?thesis
    by (simp add: eval_nat_numeral)
qed

text \<open>
  C2, as stated, fails: for two items of cost 2147483647 and time 1 and the budget 10
  the \<open>int\<close> total of the two costs wraps around to \<open>-2\<close>, so the exhaustive search
  takes both items to be within the budget and returns them, while the table of
  \<open>dynamic_max_time\<close> admits neither: the total times are 2 and 0.
\<close>

theorem solvers_agree_counterexample:
  "dynamic_max_time
      [\<lparr>description = ''A'', cost = 2147483647, time = 1\<rparr>,
       \<lparr>description = ''B'', cost = 2147483647, time = 1\<rparr>] 10
     = Some []
   \<and> exhaustive_max_time
      [\<lparr>description = ''A'', cost = 2147483647, time = 1\<rparr>,
       \<lparr>description = ''B'', cost = 2147483647, time = 1\<rparr>] 10
     = Some [\<lparr>description = ''A'', cost = 2147483647, time = 1\<rparr>,
       \<lparr>description = ''B'', cost = 2147483647, time = 1\<rparr>]
   \<and> sum_list (map time ([] :: RideVector))
     < sum_list (map time
      [\<lparr>description = ''A'', cost = 2147483647, time = 1\<rparr>,
       \<lparr>description = ''B'', cost = 2147483647, time = 1\<rparr>])"
proof (intro conjI)
  show "dynamic_max_time
      [\<lparr>description = ''A'', cost = 2147483647, time = 1\<rparr>,
       \<lparr>description = ''B'', cost = 2147483647, time = 1\<rparr>] 10
     = Some []"
    by (simp add: dynamic_max_time_run round_double_whole)
  show "exhaustive_max_time
      [\<lparr>description = ''A'', cost = 2147483647, time = 1\<rparr>,
       \<lparr>description = ''B'', cost = 2147483647, time = 1\<rparr>] 10
     = Some [\<lparr>description = ''A'', cost = 2147483647, time = 1\<rparr>,
       \<lparr>description = ''B'', cost = 2147483647, time = 1\<rparr>]"
    by (simp add: exhaustive_max_time_run round_double_whole)
  show "sum_list (map time ([] :: RideVector))
     < sum_list (map time
      [\<lparr>description = ''A'', cost = 2147483647, time = 1\<rparr>,
       \<lparr>description = ''B'', cost = 2147483647, time = 1\<rparr>])"
    by simp
qed

text \<open>
  Rounding separates the two solvers as well: for \<open>B\<close> (cost 1, time 1) and \<open>A\<close>
  (cost 1, time \<open>10\<^sup>1\<^sup>6\<close>) with budget 2, the walk back of \<open>dynamic_max_time\<close>
  returns both items, while the exhaustive search, for which the rounded total of both
  does not exceed the time of \<open>A\<close>, returns \<open>A\<close> alone.
\<close>

lemma solvers_differ_by_rounding:
  "dynamic_max_time
      [\<lparr>description = ''B'', cost = 1, time = 1\<rparr>,
       \<lparr>description = ''A'', cost = 1, time = 10000000000000000\<rparr>] 2
     = Some [\<lparr>description = ''A'', cost = 1, time = 10000000000000000\<rparr>,
       \<lparr>description = ''B'', cost = 1, time = 1\<rparr>]
   \<and> exhaustive_max_time
      [\<lparr>description = ''B'', cost = 1, time = 1\<rparr>,
       \<lparr>description = ''A'', cost = 1, time = 10000000000000000\<rparr>] 2
     = Some [\<lparr>description = ''A'', cost = 1, time = 10000000000000000\<rparr>]"
proof
  show "dynamic_max_time
      [\<lparr>description = ''B'', cost = 1, time = 1\<rparr>,
       \<lparr>description = ''A'', cost = 1, time = 10000000000000000\<rparr>] 2
     = Some [\<lparr>description = ''A'', cost = 1, time = 10000000000000000\<rparr>,
       \<lparr>description = ''B'', cost = 1, time = 1\<rparr>]"
    by (simp add: dynamic_max_time_run round_double_values round_double_whole)
  show "exhaustive_max_time
      [\<lparr>description = ''B'', cost = 1, time = 1\<rparr>,
       \<lparr>description = ''A'', cost = 1, time = 10000000000000000\<rparr>] 2
     = Some [\<lparr>description = ''A'', cost = 1, time = 10000000000000000\<rparr>]"
    by (simp add: exhaustive_max_time_run round_double_values round_double_whole)
qed

text \<open>
  C2, amended: for at most 16 items of positive cost on which the totals of every
  selection are computed exactly and a budget \<open>0 \<le> B \<le> 2 ^ 31 - 3\<close>, both solvers
  return and their results have the same total time, which \<open>sum_ride_vector\<close> gives
  exactly for both.
\<close>

theorem solvers_agree:
  assumes len: "length rides \<le> 16" and ex: "sums_exactly rides"
    and pos: "\<forall>r \<in> set rides. 0 < cost r" and B: "0 \<le> B" "B \<le> 2 ^ 31 - 3"
  shows "\<exists>d e. dynamic_max_time rides B = Some d
     \<and> exhaustive_max_time rides (real_of_int B) = Some e
     \<and> sum_list (map time d) = sum_list (map time e)
     \<and> snd (sum_ride_vector d) = Num (sum_list (map time d))
     \<and> snd (sum_ride_vector e) = Num (sum_list (map time e))"
proof -
  from len have len31: "length rides < 2 ^ 31 - 1" by simp
  from dynamic_max_time_optimal[OF ex pos len31 B] obtain d where
    d: "dynamic_max_time rides B = Some d" "subseq (rev d) rides"
      "sum_list (map cost d) \<le> B"
      "sum_ride_vector d = (sum_list (map cost d), Num (sum_list (map time d)))"
      "\<And>s. subseq s rides \<Longrightarrow> sum_list (map cost s) \<le> B
          \<Longrightarrow> sum_list (map time s) \<le> sum_list (map time d)"
    by blast
  from len have "length rides \<le> 52" by simp
  moreover from B have "0 \<le> real_of_int B" by simp
  ultimately obtain e where
    e: "exhaustive_max_time rides (real_of_int B) = Some e" "subseq e rides"
      "real_of_int (sum_list (map cost e)) \<le> real_of_int B"
      "\<And>s. subseq s rides \<Longrightarrow> real_of_int (sum_list (map cost s)) \<le> real_of_int B
          \<Longrightarrow> sum_list (map time s) \<le> sum_list (map time e)"
    using exhaustive_max_time_correct[OF _ ex, of "real_of_int B"] by blast
  have "sum_list (map time e) \<le> sum_list (map time d)"
    using d(5)[OF e(2)] e(3) by simp
  moreover have "sum_list (map time d) \<le> sum_list (map time e)"
    using e(4)[OF d(2)] d(3) by (simp add: rev_map[symmetric] del: rev_map)
  moreover have "sum_ride_vector e = (sum_list (map cost e), Num (sum_list (map time e)))"
    using ex e(2) by (simp add: sums_exactly_def)
  ultimately show ?thesis using d(1,4) e(1) by simp
qed

theorem solvers_agree_witness:
  "\<exists>d e. dynamic_max_time
       [\<lparr>description = ''A'', cost = 2, time = 3\<rparr>, \<lparr>description = ''B'', cost = 3, time = 4\<rparr>,
       \<lparr>description = ''C'', cost = 4, time = 5\<rparr>, \<lparr>description = ''D'', cost = 5, time = 6\<rparr>] 5 = Some d
     \<and> exhaustive_max_time
       [\<lparr>description = ''A'', cost = 2, time = 3\<rparr>, \<lparr>description = ''B'', cost = 3, time = 4\<rparr>,
       \<lparr>description = ''C'', cost = 4, time = 5\<rparr>, \<lparr>description = ''D'', cost = 5, time = 6\<rparr>] 5 = Some e
     \<and> d = [\<lparr>description = ''B'', cost = 3, time = 4\<rparr>, \<lparr>description = ''A'', cost = 2, time = 3\<rparr>]
     \<and> e = [\<lparr>description = ''A'', cost = 2, time = 3\<rparr>, \<lparr>description = ''B'', cost = 3, time = 4\<rparr>]
     \<and> sum_list (map time d) = sum_list (map time e)"
proof -
  let ?rides = "[\<lparr>description = ''A'', cost = 2, time = 3\<rparr>, \<lparr>description = ''B'', cost = 3, time = 4\<rparr>,
       \<lparr>description = ''C'', cost = 4, time = 5\<rparr>, \<lparr>description = ''D'', cost = 5, time = 6\<rparr>]"
  have run: "dynamic_max_time ?rides 5 = Some [\<lparr>description = ''B'', cost = 3, time = 4\<rparr>, \<lparr>description = ''A'', cost = 2, time = 3\<rparr>]"
    by (simp add: dynamic_max_time_run round_double_whole)
  have run2: "exhaustive_max_time ?rides 5 = Some [\<lparr>description = ''A'', cost = 2, time = 3\<rparr>, \<lparr>description = ''B'', cost = 3, time = 4\<rparr>]"
    by (simp add: exhaustive_max_time_run round_double_whole)
  have "sums_exactly ?rides" by (rule whole_sums_exactly) simp_all
  moreover have "length ?rides \<le> 16" "\<forall>r \<in> set ?rides. 0 < cost r"
    "(0::int) \<le> 5" "(5::int) \<le> 2 ^ 31 - 3"
    by simp_all
  ultimately show ?thesis
    using solvers_agree[of ?rides 5] unfolding run run2 by simp
qed

end
